theory Spec2Isabelle
  imports Main "HOL-Library.Char_ord" "HOL-Library.List_Lexorder"
begin

section \<open>Call graphs (slicer.py)\<close>

text \<open>
  A call graph is held in two dictionaries of type \<open>Dict[str, Set[str]]\<close>. A dictionary
  is modelled as an association list in insertion order, looked up with \<open>map_of\<close>;
  a Python set is modelled as the list of its elements in iteration order. Python leaves
  that order open, so every statement below is made for an arbitrary list.
  Strings are lists of 8-bit characters and are compared as Python compares \<open>str\<close>:
  lexicographically by character code.
\<close>

type_synonym pydict = "(string \<times> string list) list"

text \<open>\<open>d.get(k, set())\<close>\<close>

definition dict_get :: "pydict \<Rightarrow> string \<Rightarrow> string list" where
  "dict_get d k = (case map_of d k of None \<Rightarrow> [] | Some vs \<Rightarrow> vs)"

text \<open>Every name that occurs in some value set of the dictionary.\<close>

definition all_values :: "pydict \<Rightarrow> string set" where
  "all_values d = (\<Union>kv \<in> set d. set (snd kv))"

text \<open>The edge relation a dictionary of callers stands for: \<open>(a, b)\<close> when \<open>a\<close> is in the
  set stored under \<open>b\<close>.\<close>

definition edges_into :: "pydict \<Rightarrow> (string \<times> string) set" where
  "edges_into d = {(a, b). a \<in> set (dict_get d b)}"

subsection \<open>get_transitive_callers\<close>

text \<open>
  The \<open>while work:\<close> loop of \<open>get_transitive_callers\<close>. \<open>work.pop()\<close> takes the last
  element of the list, \<open>work.append\<close> adds at the end; \<open>seen\<close> is a set, kept here as the
  list of its elements in the order they were added.
\<close>

function callers_loop :: "pydict \<Rightarrow> string list \<Rightarrow> string list \<Rightarrow> string list" where
  "callers_loop callers_map seen work =
     (if work = [] then seen
      else
        let who = last work; work1 = butlast work in
        if who \<in> set seen then callers_loop callers_map seen work1
        else
          let seen1 = seen @ [who] in
          callers_loop callers_map seen1
            (work1 @ filter (\<lambda>anc. anc \<notin> set seen1) (dict_get callers_map who)))"
  by pat_completeness auto

lemma dict_get_subset_all_values: "set (dict_get d k) \<subseteq> all_values d"
proof (cases "map_of d k")
  case None
  then show ?thesis by (simp add: dict_get_def)
next
  case (Some vs)
  then have "(k, vs) \<in> set d" by (rule map_of_SomeD)
  then have "set vs \<subseteq> all_values d" by (force simp: all_values_def)
  with Some show ?thesis by (simp add: dict_get_def)
qed

lemma finite_all_values: "finite (all_values d)"
  by (simp add: all_values_def)

lemma set_butlast_seen:
  assumes "work \<noteq> []" and "last work \<in> S"
  shows "(U \<union> set (butlast work)) - S = (U \<union> set work) - S"
proof -
  have "set work = insert (last work) (set (butlast work))"
    using assms(1) by (metis append_butlast_last_id list.simps(15) rotate1.simps(2) set_rotate1)
  with assms(2) show ?thesis by auto
qed

termination callers_loop
proof (relation "measures [\<lambda>(d, seen, work). card ((all_values d \<union> set work) - set seen),
                           \<lambda>(d, seen, work). length work]", goal_cases)
  case 1
  then show ?case by simp
next
  case (2 d seen work who work1)
  then show ?case by (simp add: set_butlast_seen)
next
  case (3 d seen work who work1 seen1)
  let ?new = "work1 @ filter (\<lambda>anc. anc \<notin> set seen1) (dict_get d who)"
  have who: "who \<in> set work" using 3 by simp
  have sub: "set work1 \<subseteq> set work" using 3 by (auto dest: in_set_butlastD)
  have "(all_values d \<union> set ?new) - set seen1 \<subset> (all_values d \<union> set work) - set seen"
    using 3 who sub dict_get_subset_all_values [of d who] by auto
  moreover have "finite ((all_values d \<union> set work) - set seen)"
    by (simp add: finite_all_values)
  ultimately have "card ((all_values d \<union> set ?new) - set seen1)
      < card ((all_values d \<union> set work) - set seen)"
    by (rule psubset_card_mono [rotated])
  then show ?case by simp
qed

declare callers_loop.simps [simp del]

definition get_transitive_callers :: "pydict \<Rightarrow> string \<Rightarrow> string list" where
  "get_transitive_callers callers_map target =
     sort (callers_loop callers_map [] (dict_get callers_map target))"

subsection \<open>get_transitive_callees\<close>

text \<open>
  The loop of \<open>get_transitive_callees\<close>: the work list holds pairs of a name and the
  number of hops at which it was reached; an entry beyond \<open>max_depth\<close> is dropped.
\<close>
function callees_loop :: "pydict \<Rightarrow> int \<Rightarrow> string list \<Rightarrow> (string \<times> int) list \<Rightarrow> string list" where
  "callees_loop callees_map max_depth seen work =
     (if work = [] then seen
      else
        let who = fst (last work); depth = snd (last work); work1 = butlast work in
        if who \<in> set seen \<or> depth > max_depth then callees_loop callees_map max_depth seen work1
        else
          let seen1 = seen @ [who] in
          callees_loop callees_map max_depth seen1
            (work1 @ map (\<lambda>callee. (callee, depth + 1))
                       (filter (\<lambda>callee. callee \<notin> set seen1) (dict_get callees_map who))))"
  by pat_completeness auto

termination callees_loop
proof (relation "measures [\<lambda>(d, m, seen, work). card ((all_values d \<union> fst ` set work) - set seen),
                           \<lambda>(d, m, seen, work). length work]", goal_cases)
  case 1
  then show ?case by simp
next
  case (2 d m seen work who depth work1)
  have "set work1 \<subseteq> set work" using 2 by (auto dest: in_set_butlastD)
  then have "(all_values d \<union> fst ` set work1) - set seen \<subseteq> (all_values d \<union> fst ` set work) - set seen"
    by auto
  moreover have "finite ((all_values d \<union> fst ` set work) - set seen)"
    by (simp add: finite_all_values)
  ultimately have "card ((all_values d \<union> fst ` set work1) - set seen)
      \<le> card ((all_values d \<union> fst ` set work) - set seen)"
    by (rule card_mono [rotated])
  moreover have "length work1 < length work" using 2 by simp
  ultimately show ?case by auto
next
  case (3 d m seen work who depth work1 seen1)
  let ?new = "work1 @ map (\<lambda>callee. (callee, depth + 1))
                       (filter (\<lambda>callee. callee \<notin> set seen1) (dict_get d who))"
  have who: "who \<in> fst ` set work" using 3 by simp
  have sub: "set work1 \<subseteq> set work" using 3 by (auto dest: in_set_butlastD)
  have "(all_values d \<union> fst ` set ?new) - set seen1 \<subset> (all_values d \<union> fst ` set work) - set seen"
    using 3 who sub dict_get_subset_all_values [of d who] by (auto simp: image_iff)
  moreover have "finite ((all_values d \<union> fst ` set work) - set seen)"
    by (simp add: finite_all_values)
  ultimately have "card ((all_values d \<union> fst ` set ?new) - set seen1)
      < card ((all_values d \<union> fst ` set work) - set seen)"
    by (rule psubset_card_mono [rotated])
  then show ?case by simp
qed

declare callees_loop.simps [simp del]

definition get_transitive_callees :: "pydict \<Rightarrow> string \<Rightarrow> int \<Rightarrow> string list" where
  "get_transitive_callees callees_map target max_depth =
     sort (callees_loop callees_map max_depth []
             (map (\<lambda>callee. (callee, 1)) (dict_get callees_map target)))"

section \<open>Text\<close>

text \<open>
  A Python \<open>str\<close> is modelled as a list of 8-bit characters, one per code point, so the
  model covers texts whose code points are below 256. The character classes are the
  ones Python's \<open>re\<close> and \<open>str\<close> methods use on that range.
\<close>

definition LF :: char where "LF = CHR 0x0A"
definition CR :: char where "CR = CHR 0x0D"
definition QUOTE :: char where "QUOTE = CHR 0x27"

text \<open>\<open>\<bsol>s\<close> and \<open>str.isspace\<close>\<close>

definition is_space :: "char \<Rightarrow> bool" where
  "is_space c = (c \<in> set [CHR 0x09, CHR 0x0A, CHR 0x0B, CHR 0x0C, CHR 0x0D, CHR 0x1C, CHR 0x1D,
                           CHR 0x1E, CHR 0x1F, CHR 0x20, CHR 0x85, CHR 0xA0])"

text \<open>The characters at which \<open>str.splitlines\<close> breaks a line\<close>

definition is_linebreak :: "char \<Rightarrow> bool" where
  "is_linebreak c = (c \<in> set [CHR 0x0A, CHR 0x0B, CHR 0x0C, CHR 0x0D, CHR 0x1C, CHR 0x1D,
                               CHR 0x1E, CHR 0x85])"

definition in_range :: "nat \<Rightarrow> nat \<Rightarrow> char \<Rightarrow> bool" where
  "in_range lo hi c = (lo \<le> of_char c \<and> (of_char c :: nat) \<le> hi)"

text \<open>\<open>\<bsol>d\<close>, \<open>[a-zA-Z_]\<close> and \<open>\<bsol>w\<close>\<close>

definition is_digit :: "char \<Rightarrow> bool" where
  "is_digit c = in_range 48 57 c"

definition is_ident_start :: "char \<Rightarrow> bool" where
  "is_ident_start c = (in_range 65 90 c \<or> in_range 97 122 c \<or> c = CHR ''_'')"

definition is_word :: "char \<Rightarrow> bool" where
  "is_word c = (is_digit c \<or> is_ident_start c
     \<or> c \<in> set [CHR 0xAA, CHR 0xB2, CHR 0xB3, CHR 0xB5, CHR 0xB9, CHR 0xBA, CHR 0xBC, CHR 0xBD, CHR 0xBE]
     \<or> in_range 192 214 c \<or> in_range 216 246 c \<or> in_range 248 255 c)"

text \<open>Lower case, as \<open>re.IGNORECASE\<close> compares characters on this range\<close>

definition upper_chars :: string where
  "upper_chars = ''ABCDEFGHIJKLMNOPQRSTUVWXYZ'' @
     [CHR 0xC0, CHR 0xC1, CHR 0xC2, CHR 0xC3, CHR 0xC4, CHR 0xC5, CHR 0xC6, CHR 0xC7, CHR 0xC8, CHR 0xC9, CHR 0xCA, CHR 0xCB, CHR 0xCC, CHR 0xCD, CHR 0xCE, CHR 0xCF, CHR 0xD0, CHR 0xD1, CHR 0xD2, CHR 0xD3, CHR 0xD4, CHR 0xD5, CHR 0xD6, CHR 0xD8, CHR 0xD9, CHR 0xDA, CHR 0xDB, CHR 0xDC, CHR 0xDD, CHR 0xDE]"

definition lower_chars :: string where
  "lower_chars = ''abcdefghijklmnopqrstuvwxyz'' @
     [CHR 0xE0, CHR 0xE1, CHR 0xE2, CHR 0xE3, CHR 0xE4, CHR 0xE5, CHR 0xE6, CHR 0xE7, CHR 0xE8, CHR 0xE9, CHR 0xEA, CHR 0xEB, CHR 0xEC, CHR 0xED, CHR 0xEE, CHR 0xEF, CHR 0xF0, CHR 0xF1, CHR 0xF2, CHR 0xF3, CHR 0xF4, CHR 0xF5, CHR 0xF6, CHR 0xF8, CHR 0xF9, CHR 0xFA, CHR 0xFB, CHR 0xFC, CHR 0xFD, CHR 0xFE]"

definition py_lower :: "char \<Rightarrow> char" where
  "py_lower c = (case map_of (zip upper_chars lower_chars) c of None \<Rightarrow> c | Some l \<Rightarrow> l)"

text \<open>A literal at the head of the text: what is left after it, if it is there.\<close>

fun strip_prefix :: "string \<Rightarrow> string \<Rightarrow> string option" where
  "strip_prefix [] xs = Some xs"
| "strip_prefix (p # ps) [] = None"
| "strip_prefix (p # ps) (x # xs) = (if x = p then strip_prefix ps xs else None)"

text \<open>The same under \<open>re.IGNORECASE\<close>.\<close>

fun ci_strip_prefix :: "string \<Rightarrow> string \<Rightarrow> string option" where
  "ci_strip_prefix [] xs = Some xs"
| "ci_strip_prefix (p # ps) [] = None"
| "ci_strip_prefix (p # ps) (x # xs) =
     (if py_lower x = py_lower p then ci_strip_prefix ps xs else None)"

text \<open>\<open>str.splitlines()\<close>: \<open>cur\<close> is the line read so far.\<close>

fun splitlines_from :: "string \<Rightarrow> string \<Rightarrow> string list" where
  "splitlines_from cur [] = (if cur = [] then [] else [cur])"
| "splitlines_from cur [c] = (if is_linebreak c then [cur] else [cur @ [c]])"
| "splitlines_from cur (c # d # cs) =
     (if c = CR \<and> d = LF then cur # splitlines_from [] cs
      else if is_linebreak c then cur # splitlines_from [] (d # cs)
      else splitlines_from (cur @ [c]) (d # cs))"

definition splitlines :: "string \<Rightarrow> string list" where
  "splitlines text = splitlines_from [] text"

subsection \<open>The call-graph dump\<close>

text \<open>
  \<open>NODE_RX.match(line)\<close> for
  \<^verbatim>\<open>^Call graph node for function:\s*'([^']+)'\<close>: the captured name, if the line matches.
  \<open>quoted_tail\<close> reads \<^verbatim>\<open>([^']+)'\<close> after the opening quote.
\<close>

definition quoted_tail :: "string \<Rightarrow> string option" where
  "quoted_tail r =
     (let name = takeWhile (\<lambda>c. c \<noteq> QUOTE) r; rest = dropWhile (\<lambda>c. c \<noteq> QUOTE) r
      in if name \<noteq> [] \<and> rest \<noteq> [] then Some name else None)"

definition node_rx_match :: "string \<Rightarrow> string option" where
  "node_rx_match line =
     (case strip_prefix ''Call graph node for function:'' line of
        None \<Rightarrow> None
      | Some r \<Rightarrow>
          (case strip_prefix [QUOTE] (dropWhile is_space r) of
             None \<Rightarrow> None
           | Some r1 \<Rightarrow> quoted_tail r1))"

text \<open>
  \<open>CALL_RX.match(line)\<close> for
  \<^verbatim>\<open>^\s*(?:CS<[^>]*>\s+)?calls function '([^']+)'\<close> with \<open>re.IGNORECASE\<close>.
  \<open>cs_group\<close> reads the optional group \<^verbatim>\<open>CS<[^>]*>\s+\<close>; the matcher tries the group
  first and, when the rest does not match after it, the pattern without the group.
\<close>

definition calls_tail :: "string \<Rightarrow> string option" where
  "calls_tail r =
     (case ci_strip_prefix (''calls function '' @ [QUOTE]) r of
        None \<Rightarrow> None
      | Some r1 \<Rightarrow> quoted_tail r1)"

definition cs_group :: "string \<Rightarrow> string option" where
  "cs_group r =
     (case ci_strip_prefix ''CS<'' r of
        None \<Rightarrow> None
      | Some r1 \<Rightarrow>
          (case dropWhile (\<lambda>c. c \<noteq> CHR ''>'') r1 of
             [] \<Rightarrow> None
           | gt # r2 \<Rightarrow>
               (case r2 of
                  [] \<Rightarrow> None
                | c # r3 \<Rightarrow> if is_space c then Some (dropWhile is_space r2) else None)))"

definition call_rx_match :: "string \<Rightarrow> string option" where
  "call_rx_match line =
     (let r0 = dropWhile is_space line in
      case (case cs_group r0 of None \<Rightarrow> None | Some g \<Rightarrow> calls_tail g) of
        Some callee \<Rightarrow> Some callee
      | None \<Rightarrow> calls_tail r0)"

text \<open>
  Dictionary updates. \<open>dict_set\<close> is \<open>d[k] = vs\<close>; \<open>set_add\<close> is \<open>s.add(v)\<close>.
\<close>

fun dict_set :: "pydict \<Rightarrow> string \<Rightarrow> string list \<Rightarrow> pydict" where
  "dict_set [] k vs = [(k, vs)]"
| "dict_set ((k1, vs1) # d) k vs = (if k1 = k then (k, vs) # d else (k1, vs1) # dict_set d k vs)"

definition set_add :: "string list \<Rightarrow> string \<Rightarrow> string list" where
  "set_add vs v = (if v \<in> set vs then vs else vs @ [v])"

text \<open>\<open>d.setdefault(k, set())\<close>, for its effect on \<open>d\<close>\<close>

definition dict_setdefault :: "pydict \<Rightarrow> string \<Rightarrow> pydict" where
  "dict_setdefault d k = (case map_of d k of None \<Rightarrow> d @ [(k, [])] | Some vs \<Rightarrow> d)"

datatype py_error = KeyError string

text \<open>
  \<open>parse_callgraph_text\<close>: one turn of the loop over the lines. The state is the
  dictionary and \<open>current\<close>; \<open>if current:\<close> holds for a name that is not empty.
\<close>

definition callers_line :: "pydict \<times> string option \<Rightarrow> string \<Rightarrow> pydict \<times> string option" where
  "callers_line st line =
     (let callers_map = fst st; current = snd st in
      case node_rx_match line of
        Some name \<Rightarrow> (callers_map, Some name)
      | None \<Rightarrow>
          (case current of
             None \<Rightarrow> st
           | Some cur \<Rightarrow>
               if cur = [] then st
               else
                 (case call_rx_match line of
                    None \<Rightarrow> st
                  | Some callee \<Rightarrow>
                      (dict_set (dict_setdefault callers_map callee) callee
                         (set_add (dict_get callers_map callee) cur), current))))"

definition parse_callgraph_text :: "string \<Rightarrow> pydict" where
  "parse_callgraph_text text = fst (foldl callers_line ([], None) (splitlines text))"

text \<open>
  \<open>parse_callees_map\<close>. \<open>callees_map[current]\<close> raises \<open>KeyError\<close> for a key that is
  not there; the raise is a result of the model.
\<close>

definition callees_line ::
  "pydict \<times> string option \<Rightarrow> string \<Rightarrow> py_error + pydict \<times> string option" where
  "callees_line st line =
     (let callees_map = fst st; current = snd st in
      case node_rx_match line of
        Some name \<Rightarrow> Inr (dict_setdefault callees_map name, Some name)
      | None \<Rightarrow>
          (case current of
             None \<Rightarrow> Inr st
           | Some cur \<Rightarrow>
               if cur = [] then Inr st
               else
                 (case call_rx_match line of
                    None \<Rightarrow> Inr st
                  | Some callee \<Rightarrow>
                      (case map_of callees_map cur of
                         None \<Rightarrow> Inl (KeyError cur)
                       | Some vs \<Rightarrow> Inr (dict_set callees_map cur (set_add vs callee), current)))))"

fun callees_lines :: "pydict \<times> string option \<Rightarrow> string list \<Rightarrow> py_error + pydict" where
  "callees_lines st [] = Inr (fst st)"
| "callees_lines st (line # lines) =
     (case callees_line st line of Inl e \<Rightarrow> Inl e | Inr st1 \<Rightarrow> callees_lines st1 lines)"

definition parse_callees_map :: "string \<Rightarrow> py_error + pydict" where
  "parse_callees_map text = callees_lines ([], None) (splitlines text)"

subsection \<open>Small Python functions\<close>

text \<open>\<open>str(n)\<close> for an integer, \<open>int(s)\<close> for a string of digits, \<open>sep.join(xs)\<close>, \<open>s.strip()\<close>\<close>

fun show_nat :: "nat \<Rightarrow> string" where
  "show_nat n =
     (if n < 10 then [''0123456789'' ! n] else show_nat (n div 10) @ [''0123456789'' ! (n mod 10)])"

declare show_nat.simps [simp del]

definition show_int :: "int \<Rightarrow> string" where
  "show_int i = (if i < 0 then ''-'' @ show_nat (nat (- i)) else show_nat (nat i))"

definition int_of_digits :: "string \<Rightarrow> int" where
  "int_of_digits ds = foldl (\<lambda>acc c. 10 * acc + (int (of_char c) - 48)) 0 ds"

fun py_join :: "string \<Rightarrow> string list \<Rightarrow> string" where
  "py_join sep [] = []"
| "py_join sep [x] = x"
| "py_join sep (x # y # xs) = x @ sep @ py_join sep (y # xs)"

definition py_strip :: "string \<Rightarrow> string" where
  "py_strip s = rev (dropWhile is_space (rev (dropWhile is_space s)))"

subsection \<open>parse_function_metadata\<close>

record FunctionMetadata =
  fn_name :: string
  uses_count :: int
  has_callers :: bool
  md_callers :: "string list"
  is_exported :: bool
  md_has_address_taken :: bool

text \<open>
  The pattern built in \<open>parse_function_metadata\<close>,
  \<^verbatim>\<open>Call graph node for function:\s*'<target>'[^\n]*\<close> compiled with \<open>re.IGNORECASE\<close>,
  matched at the head of \<open>xs\<close>: the matched text \<open>group(0)\<close>. The flag covers the whole
  pattern, the escaped target included.
\<close>

definition header_match :: "string \<Rightarrow> string \<Rightarrow> string option" where
  "header_match target xs =
     (case ci_strip_prefix ''Call graph node for function:'' xs of
        None \<Rightarrow> None
      | Some r \<Rightarrow>
          (case ci_strip_prefix ([QUOTE] @ target @ [QUOTE]) (dropWhile is_space r) of
             None \<Rightarrow> None
           | Some r2 \<Rightarrow>
               Some (take (length xs - length r2) xs @ takeWhile (\<lambda>c. c \<noteq> LF) r2)))"

text \<open>\<open>pattern.search(text)\<close>: the match at the leftmost position that has one.\<close>

fun header_search :: "string \<Rightarrow> string \<Rightarrow> string option" where
  "header_search target [] = header_match target []"
| "header_search target (c # cs) =
     (case header_match target (c # cs) of
        Some node_line \<Rightarrow> Some node_line
      | None \<Rightarrow> header_search target cs)"

text \<open>\<open>USES_RX.search(node_line)\<close> for \<^verbatim>\<open>#uses=(\d+)\<close> with \<open>re.IGNORECASE\<close>: the digits.\<close>

definition uses_match :: "string \<Rightarrow> string option" where
  "uses_match xs =
     (case ci_strip_prefix ''#uses='' xs of
        None \<Rightarrow> None
      | Some r \<Rightarrow> if takeWhile is_digit r = [] then None else Some (takeWhile is_digit r))"

fun uses_search :: "string \<Rightarrow> string option" where
  "uses_search [] = None"
| "uses_search (c # cs) =
     (case uses_match (c # cs) of Some ds \<Rightarrow> Some ds | None \<Rightarrow> uses_search cs)"

definition parse_function_metadata :: "string \<Rightarrow> string \<Rightarrow> FunctionMetadata" where
  "parse_function_metadata text target =
     (let metadata = \<lparr>fn_name = target, uses_count = 0, has_callers = False, md_callers = [],
                       is_exported = False, md_has_address_taken = False\<rparr>
      in case header_search target text of
           None \<Rightarrow> metadata
         | Some node_line \<Rightarrow>
             (case uses_search node_line of
                None \<Rightarrow> metadata
              | Some ds \<Rightarrow> metadata\<lparr>uses_count := int_of_digits ds\<rparr>))"

subsection \<open>check_function_pointer_usage\<close>

text \<open>
  \<open>pattern.finditer(text)\<close>. A matcher \<open>m text pos\<close> gives, for a match that starts at
  \<open>pos\<close>, its end and what it captured. The search goes on at the end of a match; after
  an empty match it goes on one character later (the patterns here that can match the
  empty string match nothing else).
\<close>

function finditer_from ::
  "(string \<Rightarrow> nat \<Rightarrow> (nat \<times> 'a) option) \<Rightarrow> string \<Rightarrow> nat \<Rightarrow> (nat \<times> nat \<times> 'a) list" where
  "finditer_from m text pos =
     (if length text < pos then []
      else
        (case m text pos of
           None \<Rightarrow> finditer_from m text (pos + 1)
         | Some (e, g) \<Rightarrow> (pos, e, g) # finditer_from m text (if pos < e then e else pos + 1)))"
  by pat_completeness auto
termination
  by (relation "measure (\<lambda>(m, text, pos). length text + 1 - pos)") auto

declare finditer_from.simps [simp del]

definition finditer ::
  "(string \<Rightarrow> nat \<Rightarrow> (nat \<times> 'a) option) \<Rightarrow> string \<Rightarrow> (nat \<times> nat \<times> 'a) list" where
  "finditer m text = finditer_from m text 0"

text \<open>\<open>\<bsol>b\<close> at position \<open>i\<close>: exactly one of the two neighbours is a word character.\<close>

definition is_word_at :: "string \<Rightarrow> nat \<Rightarrow> bool" where
  "is_word_at text i = (i < length text \<and> is_word (text ! i))"

definition word_boundary :: "string \<Rightarrow> nat \<Rightarrow> bool" where
  "word_boundary text i = ((0 < i \<and> is_word_at text (i - 1)) \<noteq> is_word_at text i)"

definition literal_at :: "string \<Rightarrow> string \<Rightarrow> nat \<Rightarrow> bool" where
  "literal_at lit text i = (take (length lit) (drop i text) = lit)"

text \<open>
  \<^verbatim>\<open>&\s*<target>\b\<close>. \<open>\<bsol>s*\<close> is greedy: \<open>addr_try\<close> tries the longest run of white
  space first and gives characters back one at a time.
\<close>

fun addr_try :: "string \<Rightarrow> string \<Rightarrow> nat \<Rightarrow> nat \<Rightarrow> nat option" where
  "addr_try target text q 0 =
     (if literal_at target text q \<and> word_boundary text (q + length target)
      then Some (q + length target) else None)"
| "addr_try target text q (Suc k) =
     (if literal_at target text (q + Suc k) \<and> word_boundary text (q + Suc k + length target)
      then Some (q + Suc k + length target) else addr_try target text q k)"

definition addr_match :: "string \<Rightarrow> string \<Rightarrow> nat \<Rightarrow> (nat \<times> unit) option" where
  "addr_match target text p =
     (if p < length text \<and> text ! p = CHR ''&''
      then map_option (\<lambda>e. (e, ()))
             (addr_try target text (p + 1) (length (takeWhile is_space (drop (p + 1) text))))
      else None)"

text \<open>
  The first two entries of \<open>FUNC_PTR_PATTERNS\<close>,
  \<^verbatim>\<open>sqlite3_create_function[^(]*\([^,]+,\s*[^,]+,\s*[^,]+,\s*[^,]+,\s*[^,]+,\s*(\w+)\<close>
  and the same with \<open>sqlite3_create_function_v2\<close>, both with \<open>re.IGNORECASE\<close>.
  \<open>skip_args k r\<close> reads \<open>k\<close> times a non-empty run without comma and the comma after
  it (\<^verbatim>\<open>\s*[^,]+,\<close> matches exactly that).
\<close>

fun skip_args :: "nat \<Rightarrow> string \<Rightarrow> string option" where
  "skip_args 0 r = Some r"
| "skip_args (Suc k) r =
     (if takeWhile (\<lambda>c. c \<noteq> CHR '','') r = [] then None
      else
        (case dropWhile (\<lambda>c. c \<noteq> CHR '','') r of
           [] \<Rightarrow> None
         | comma # r1 \<Rightarrow> skip_args k r1))"

definition sqlite_match :: "string \<Rightarrow> string \<Rightarrow> nat \<Rightarrow> (nat \<times> string) option" where
  "sqlite_match lit text p =
     (case ci_strip_prefix lit (drop p text) of
        None \<Rightarrow> None
      | Some r \<Rightarrow>
          (case dropWhile (\<lambda>c. c \<noteq> CHR ''('') r of
             [] \<Rightarrow> None
           | paren # r1 \<Rightarrow>
               (case skip_args 5 r1 of
                  None \<Rightarrow> None
                | Some r2 \<Rightarrow>
                    (let r3 = dropWhile is_space r2; g = takeWhile is_word r3
                     in if g = [] then None
                        else Some (length text - length (dropWhile is_word r3), g)))))"

text \<open>\<^verbatim>\<open>(?<![a-zA-Z_])<target>(?![a-zA-Z_0-9(])\<close>\<close>

definition bare_match :: "string \<Rightarrow> string \<Rightarrow> nat \<Rightarrow> (nat \<times> unit) option" where
  "bare_match target text p =
     (let e = p + length target in
      if \<not> (0 < p \<and> is_ident_start (text ! (p - 1)))
         \<and> literal_at target text p
         \<and> \<not> (e < length text
               \<and> (is_ident_start (text ! e) \<or> is_digit (text ! e) \<or> text ! e = CHR ''(''))
      then Some (e, ()) else None)"

record pointer_usage =
  has_address_taken :: bool
  function_registration :: "string list"
  suspicious_patterns :: "string list"
  context_snippets :: "string list"

text \<open>
  \<open>c_text[start:end].replace('\n', ' ')\<close> with \<open>start = max(0, s - before)\<close> and
  \<open>end = min(len(c_text), e + after)\<close>; the subtraction of natural numbers stops at 0.
\<close>

definition snippet :: "string \<Rightarrow> nat \<Rightarrow> nat \<Rightarrow> string" where
  "snippet c_text start end =
     map (\<lambda>c. if c = LF then CHR '' '' else c) (take (end - start) (drop start c_text))"

definition addr_step :: "string \<Rightarrow> pointer_usage \<Rightarrow> nat \<times> nat \<times> unit \<Rightarrow> pointer_usage" where
  "addr_step c_text result mt =
     (let start = fst mt - 100; end = min (length c_text) (fst (snd mt) + 100)
      in result\<lparr>has_address_taken := True,
                context_snippets := context_snippets result @ [snippet c_text start end]\<rparr>)"

definition registration_step ::
  "string \<Rightarrow> string \<Rightarrow> pointer_usage \<Rightarrow> nat \<times> nat \<times> string \<Rightarrow> pointer_usage" where
  "registration_step c_text target result mt =
     (if snd (snd mt) = target
      then
        (let start = fst mt - 50; end = min (length c_text) (fst (snd mt) + 150)
         in result\<lparr>function_registration := function_registration result @ [''sqlite3_create_function''],
                   context_snippets := context_snippets result @ [snippet c_text start end]\<rparr>)
      else result)"

definition bare_step :: "string \<Rightarrow> pointer_usage \<Rightarrow> nat \<times> nat \<times> unit \<Rightarrow> pointer_usage" where
  "bare_step c_text result mt =
     (let pos = fst mt; next_char_pos = fst (snd mt) in
      if next_char_pos < length c_text
      then
        (let next_char_pos = next_char_pos + length (takeWhile is_space (drop next_char_pos c_text)) in
         if next_char_pos < length c_text \<and> c_text ! next_char_pos \<noteq> CHR ''(''
         then
           (let result1 = result\<lparr>suspicious_patterns :=
                  suspicious_patterns result @ [''Bare reference at position '' @ show_nat pos]\<rparr>
            in if length (context_snippets result1) < 5
               then result1\<lparr>context_snippets := context_snippets result1 @
                      [snippet c_text (pos - 80) (min (length c_text) (pos + 80))]\<rparr>
               else result1)
         else result)
      else result)"

definition addr_matches :: "string \<Rightarrow> string \<Rightarrow> (nat \<times> nat \<times> unit) list" where
  "addr_matches c_text target = finditer (addr_match target) c_text"

definition registration_matches :: "string \<Rightarrow> string \<Rightarrow> (nat \<times> nat \<times> string) list" where
  "registration_matches c_text target =
     filter (\<lambda>mt. snd (snd mt) = target)
       (finditer (sqlite_match ''sqlite3_create_function'') c_text @
        finditer (sqlite_match ''sqlite3_create_function_v2'') c_text)"

definition check_function_pointer_usage :: "string \<Rightarrow> string \<Rightarrow> pointer_usage" where
  "check_function_pointer_usage c_text target =
     (let result = \<lparr>has_address_taken = False, function_registration = [],
                     suspicious_patterns = [], context_snippets = []\<rparr>;
          result = foldl (addr_step c_text) result (finditer (addr_match target) c_text);
          result = foldl (registration_step c_text target) result
                     (finditer (sqlite_match ''sqlite3_create_function'') c_text);
          result = foldl (registration_step c_text target) result
                     (finditer (sqlite_match ''sqlite3_create_function_v2'') c_text)
      in foldl (bare_step c_text) result (finditer (bare_match target) c_text))"

subsection \<open>analyze_target\<close>

text \<open>
  The static analysis of one target. The record holds the entries of the returned
  dictionary that the decision rests on; \<open>target_arg\<close> is the value of
  \<open>state.get("target") or os.environ.get("TARGET_FUNC", "")\<close>.
\<close>

record analysis =
  res_target :: string
  res_callers :: "string list"
  res_callers_transitive :: "string list"
  res_callees :: "string list"
  res_callees_transitive :: "string list"
  res_decision :: string
  res_function_metadata :: FunctionMetadata
  res_pointer_usage :: pointer_usage
  res_edge_case_warnings :: "string list"

definition uses_warning :: "int \<Rightarrow> string" where
  "uses_warning n =
     ''EDGE CASE: Call graph shows #uses='' @ show_int n @ '' but static analysis '' @
     ''found 0 callers. This suggests function pointer usage, callbacks, or exports.''"

definition address_warning :: string where
  "address_warning =
     ''EDGE CASE: Function address is taken (& operator found). '' @
     ''This indicates pointer/callback usage.''"

definition registration_warning :: "string list \<Rightarrow> string" where
  "registration_warning regs =
     ''CRITICAL: Function is registered with SQLite via '' @ py_join '', '' regs @ ''. '' @
     ''Removing this will break SQL queries that call this function!''"

definition suspicious_warning :: "nat \<Rightarrow> string" where
  "suspicious_warning n =
     ''EDGE CASE: Found '' @ show_nat n @ '' suspicious patterns '' @
     ''suggesting indirect usage.''"

definition dead_code_info :: "nat \<Rightarrow> string" where
  "dead_code_info n =
     ''INFO: Function has 0 callers but calls '' @ show_nat n @ '' function(s) directly. '' @
     ''This is dead code that can be safely removed (if no edge cases).''"

definition override_warning :: string where
  "override_warning = ''Decision overridden to DEPENDENT due to edge case detection.''"

definition analyze_target :: "pydict \<Rightarrow> pydict \<Rightarrow> string \<Rightarrow> string \<Rightarrow> string \<Rightarrow> analysis" where
  "analyze_target callers_map callees_map cg_text c_text target_arg =
     (let target = py_strip target_arg;
          direct_callers = sort (dict_get callers_map target);
          transitive_callers = get_transitive_callers callers_map target;
          has_dependency = (direct_callers \<noteq> [] \<or> transitive_callers \<noteq> []);
          direct_callees = sort (dict_get callees_map target);
          transitive_callees = get_transitive_callees callees_map target 10;
          metadata = (parse_function_metadata cg_text target)
                       \<lparr>has_callers := has_dependency, md_callers := direct_callers\<rparr>;
          pointer_usage = check_function_pointer_usage c_text target;
          warnings = [];
          warnings = (if uses_count metadata > 0 \<and> \<not> has_dependency
                      then warnings @ [uses_warning (uses_count metadata)] else warnings);
          warnings = (if has_address_taken pointer_usage
                      then warnings @ [address_warning] else warnings);
          warnings = (if function_registration pointer_usage \<noteq> []
                      then warnings @ [registration_warning (function_registration pointer_usage)]
                      else warnings);
          warnings = (if suspicious_patterns pointer_usage \<noteq> []
                         \<and> length (suspicious_patterns pointer_usage) > 3
                      then warnings @ [suspicious_warning (length (suspicious_patterns pointer_usage))]
                      else warnings);
          warnings = (if \<not> has_dependency \<and> length direct_callees > 0
                      then warnings @ [dead_code_info (length direct_callees)] else warnings);
          decision = (if \<not> has_dependency then ''SAFE_TO_REMOVE'' else ''DEPENDENT'');
          override = (function_registration pointer_usage \<noteq> [] \<or> has_address_taken pointer_usage);
          decision = (if override then ''DEPENDENT'' else decision);
          warnings = (if override then warnings @ [override_warning] else warnings)
      in \<lparr>res_target = target,
          res_callers = direct_callers,
          res_callers_transitive = transitive_callers,
          res_callees = direct_callees,
          res_callees_transitive = transitive_callees,
          res_decision = decision,
          res_function_metadata = metadata,
          res_pointer_usage = pointer_usage,
          res_edge_case_warnings = warnings\<rparr>)"

section \<open>Removing a function definition (app.py)\<close>

definition DQUOTE :: char where "DQUOTE = CHR 0x22"
definition BACKSLASH :: char where "BACKSLASH = CHR 0x5C"

text \<open>\<open>src_text.replace("\r\n", "\n")\<close>\<close>

fun replace_crlf :: "string \<Rightarrow> string" where
  "replace_crlf [] = []"
| "replace_crlf [c] = [c]"
| "replace_crlf (c # d # cs) =
     (if c = CR \<and> d = LF then LF # replace_crlf cs else c # replace_crlf (d # cs))"

text \<open>
  \<open>text.find(sub, start)\<close> and \<open>text.rfind(c, 0, end)\<close> for a single character;
  \<open>None\<close> stands for the result \<open>-1\<close>.
\<close>

function find_sub :: "string \<Rightarrow> string \<Rightarrow> nat \<Rightarrow> nat option" where
  "find_sub sub text i =
     (if length text < i + length sub then None
      else if literal_at sub text i then Some i
      else find_sub sub text (i + 1))"
  by pat_completeness auto
termination find_sub
proof (relation "measure (\<lambda>(sub, text, i). length text - i)", goal_cases)
  case 1
  then show ?case by simp
next
  case (2 pat t i)
  then have "pat \<noteq> []" by (auto simp: literal_at_def)
  with 2 show ?case by (cases pat) auto
qed

declare find_sub.simps [simp del]

fun rfind_char :: "char \<Rightarrow> string \<Rightarrow> nat \<Rightarrow> nat option" where
  "rfind_char c text 0 = None"
| "rfind_char c text (Suc k) =
     (if k < length text \<and> text ! k = c then Some k else rfind_char c text k)"

text \<open>\<open>text.rfind("\n", 0, end) + 1\<close>\<close>

definition line_start :: "string \<Rightarrow> nat \<Rightarrow> nat" where
  "line_start text end = (case rfind_char LF text end of None \<Rightarrow> 0 | Some i \<Rightarrow> i + 1)"

definition starts_with :: "string \<Rightarrow> string \<Rightarrow> bool" where
  "starts_with p s = (take (length p) s = p)"

definition ends_with :: "string \<Rightarrow> string \<Rightarrow> bool" where
  "ends_with p s = (length p \<le> length s \<and> drop (length s - length p) s = p)"

subsection \<open>Finding the definition\<close>

text \<open>
  The pattern of the first attempt, compiled with \<open>re.MULTILINE | re.DOTALL\<close>:
  \<^verbatim>\<open>((?:^|\n)(?:[^\n]*?)\b<func>\s*\([^)]*\)[^{;]*?\{)\<close>.

  \<open>brace_after\<close> reads \<^verbatim>\<open>[^{;]*?\{\<close> and gives the end of the match;
  \<open>rest_at\<close> reads the pattern from \<^verbatim>\<open>\b\<close> on; \<open>lazy_line\<close> is the lazy
  \<^verbatim>\<open>[^\n]*?\<close>, which tries the rest of the pattern before it takes one more character of
  the line; \<open>match_at\<close> tries the two branches of \<^verbatim>\<open>(?:^|\n)\<close> in their order;
  \<open>first_match_from\<close> is the search for the leftmost start, which is \<open>matches[0]\<close>.
\<close>

function brace_after :: "string \<Rightarrow> nat \<Rightarrow> nat option" where
  "brace_after text j =
     (if j < length text
      then (if text ! j = CHR ''{'' then Some (j + 1)
            else if text ! j = CHR '';'' then None
            else brace_after text (j + 1))
      else None)"
  by pat_completeness auto
termination
  by (relation "measure (\<lambda>(text, j). length text - j)") auto

declare brace_after.simps [simp del]

definition skip_space :: "string \<Rightarrow> nat \<Rightarrow> nat" where
  "skip_space text j = j + length (takeWhile is_space (drop j text))"

definition rest_at :: "string \<Rightarrow> string \<Rightarrow> nat \<Rightarrow> nat option" where
  "rest_at text func q =
     (if word_boundary text q \<and> literal_at func text q
      then
        (let j = skip_space text (q + length func) in
         if j < length text \<and> text ! j = CHR ''(''
         then (case find_sub '')'' text (j + 1) of
                 None \<Rightarrow> None
               | Some k \<Rightarrow> brace_after text (k + 1))
         else None)
      else None)"

function lazy_line :: "string \<Rightarrow> string \<Rightarrow> nat \<Rightarrow> nat option" where
  "lazy_line text func k =
     (case rest_at text func k of
        Some e \<Rightarrow> Some e
      | None \<Rightarrow> if k < length text \<and> text ! k \<noteq> LF then lazy_line text func (k + 1) else None)"
  by pat_completeness auto
termination
  by (relation "measure (\<lambda>(text, func, k). length text - k)") auto

declare lazy_line.simps [simp del]

definition match_at :: "string \<Rightarrow> string \<Rightarrow> nat \<Rightarrow> nat option" where
  "match_at text func p =
     (case (if p = 0 \<or> text ! (p - 1) = LF then lazy_line text func p else None) of
        Some e \<Rightarrow> Some e
      | None \<Rightarrow> if p < length text \<and> text ! p = LF then lazy_line text func (p + 1) else None)"

function first_match_from :: "string \<Rightarrow> string \<Rightarrow> nat \<Rightarrow> (nat \<times> nat) option" where
  "first_match_from text func p =
     (if length text < p then None
      else (case match_at text func p of
              Some e \<Rightarrow> Some (p, e)
            | None \<Rightarrow> first_match_from text func (p + 1)))"
  by pat_completeness auto
termination
  by (relation "measure (\<lambda>(text, func, p). length text + 1 - p)") auto

declare first_match_from.simps [simp del]

text \<open>
  The fallback when the pattern matches nowhere. \<open>back_scan\<close> is the loop that moves
  \<open>sig_start\<close> over the lines before the name; \<open>check_pos\<close> is a natural number, and
  the loop runs while it is positive, as in the source.
\<close>

lemma rfind_char_less: "rfind_char c text e = Some i \<Longrightarrow> i < e"
  by (induction e) (auto split: if_splits)

lemma line_start_le: "0 < e \<Longrightarrow> line_start text (e - Suc 0) < e"
  by (auto simp: line_start_def split: option.splits dest: rfind_char_less)

function back_scan :: "string \<Rightarrow> nat \<Rightarrow> nat \<Rightarrow> nat" where
  "back_scan text sig_start check_pos =
     (if 0 < check_pos
      then
        (let prev_line_start = line_start text (check_pos - 1);
             prev_line = py_strip (take (check_pos - prev_line_start) (drop prev_line_start text))
         in if prev_line \<noteq> []
               \<and> \<not> (starts_with ''//'' prev_line \<or> starts_with ''/*'' prev_line)
               \<and> \<not> (ends_with '';'' prev_line \<or> ends_with ''}'' prev_line \<or> ends_with ''{'' prev_line)
            then back_scan text prev_line_start prev_line_start
            else sig_start)
      else sig_start)"
  by pat_completeness auto
termination
  by (relation "measure (\<lambda>(text, sig_start, check_pos). check_pos)") (auto simp: line_start_le)

declare back_scan.simps [simp del]

definition signature_start :: "string \<Rightarrow> nat \<Rightarrow> nat" where
  "signature_start text name_idx =
     (let sig_start = line_start text name_idx in back_scan text sig_start (sig_start - 1))"

definition not_found_msg :: "string \<Rightarrow> string" where
  "not_found_msg func = ''Function '' @ [QUOTE] @ func @ [QUOTE] @ '' not found (name search failed).''"

definition no_brace_msg :: "string \<Rightarrow> string" where
  "no_brace_msg func = ''No opening brace found for '' @ [QUOTE] @ func @ [QUOTE] @ ''.''"

definition prototype_msg :: "string \<Rightarrow> string" where
  "prototype_msg func = ''Only prototype found for '' @ [QUOTE] @ func @ [QUOTE] @ ''.''"

definition unbalanced_msg :: "string \<Rightarrow> int \<Rightarrow> string" where
  "unbalanced_msg func d =
     ''Unbalanced braces for '' @ [QUOTE] @ func @ [QUOTE] @ '' (final depth='' @ show_int d @ '').''"

definition removed_msg :: "string \<Rightarrow> int \<Rightarrow> string" where
  "removed_msg func chars_removed =
     ''Removed '' @ [QUOTE] @ func @ [QUOTE] @ '' ('' @ show_int chars_removed @ '' chars).''"

text \<open>The fallback: an early return with its message, or \<open>sig_start\<close> and \<open>brace_idx\<close>.\<close>

definition locate_fallback :: "string \<Rightarrow> string \<Rightarrow> string + nat \<times> nat" where
  "locate_fallback text func =
     (case find_sub (func @ ''('') text 0 of
        None \<Rightarrow> Inl (not_found_msg func)
      | Some name_idx \<Rightarrow>
          (let semi_idx = find_sub '';'' text name_idx in
           case find_sub ''{'' text name_idx of
             None \<Rightarrow> Inl (no_brace_msg func)
           | Some brace_idx \<Rightarrow>
               if (case semi_idx of None \<Rightarrow> False | Some s \<Rightarrow> s < brace_idx)
               then
                 (case find_sub (func @ ''('') text (name_idx + 1) of
                    None \<Rightarrow> Inl (prototype_msg func)
                  | Some name_idx2 \<Rightarrow>
                      (case find_sub ''{'' text name_idx2 of
                         None \<Rightarrow> Inl (no_brace_msg func)
                       | Some brace_idx2 \<Rightarrow> Inr (signature_start text name_idx2, brace_idx2)))
               else Inr (signature_start text name_idx, brace_idx)))"

text \<open>Both attempts: \<open>sig_start\<close> and \<open>brace_idx\<close>, or the message of an early return.\<close>

definition locate :: "string \<Rightarrow> string \<Rightarrow> string + nat \<times> nat" where
  "locate text func =
     (case first_match_from text func 0 of
        None \<Rightarrow> locate_fallback text func
      | Some (match_start, match_end) \<Rightarrow> Inr (match_start, match_end - 1))"

subsection \<open>Matching the closing brace\<close>

record scan_state =
  depth :: int
  in_string :: bool
  in_char :: bool
  in_sl_comment :: bool
  in_ml_comment :: bool
  escape_next :: bool

text \<open>
  One turn of the \<open>while i < n\<close> loop at index \<open>i\<close>: either the loop goes on at the
  next index with the next state, or the function returns with \<open>body_end\<close>.
  \<open>next_ch\<close> is \<open>None\<close> where the source has the empty string.
\<close>

datatype scan_step = Next nat scan_state | Found nat

definition scan_char :: "string \<Rightarrow> nat \<Rightarrow> scan_state \<Rightarrow> scan_step" where
  "scan_char text i st =
     (let ch = text ! i;
          next_ch = (if i + 1 < length text then Some (text ! (i + 1)) else None)
      in
      if escape_next st then Next (i + 1) (st\<lparr>escape_next := False\<rparr>)
      else if in_string st then
        (if ch = BACKSLASH then Next (i + 1) (st\<lparr>escape_next := True\<rparr>)
         else if ch = DQUOTE then Next (i + 1) (st\<lparr>in_string := False\<rparr>)
         else Next (i + 1) st)
      else if in_char st then
        (if ch = BACKSLASH then Next (i + 1) (st\<lparr>escape_next := True\<rparr>)
         else if ch = QUOTE then Next (i + 1) (st\<lparr>in_char := False\<rparr>)
         else Next (i + 1) st)
      else if in_sl_comment st then
        (if ch = LF then Next (i + 1) (st\<lparr>in_sl_comment := False\<rparr>)
         else Next (i + 1) st)
      else if in_ml_comment st then
        (if ch = CHR ''*'' \<and> next_ch = Some (CHR ''/'') then Next (i + 2) (st\<lparr>in_ml_comment := False\<rparr>)
         else Next (i + 1) st)
      else
        (if ch = CHR ''/'' \<and> next_ch = Some (CHR ''/'') then Next (i + 2) (st\<lparr>in_sl_comment := True\<rparr>)
         else if ch = CHR ''/'' \<and> next_ch = Some (CHR ''*'') then Next (i + 2) (st\<lparr>in_ml_comment := True\<rparr>)
         else if ch = DQUOTE then Next (i + 1) (st\<lparr>in_string := True\<rparr>)
         else if ch = QUOTE then Next (i + 1) (st\<lparr>in_char := True\<rparr>)
         else if ch = CHR ''{'' then Next (i + 1) (st\<lparr>depth := depth st + 1\<rparr>)
         else if ch = CHR ''}'' then
           (if depth st - 1 = 0 then Found (i + 1)
            else Next (i + 1) (st\<lparr>depth := depth st - 1\<rparr>))
         else Next (i + 1) st))"

lemma scan_char_advances: "scan_char text i st = Next j st1 \<Longrightarrow> i < j"
  by (auto simp: scan_char_def Let_def split: if_splits)

text \<open>The loop: \<open>Inr body_end\<close> on return, \<open>Inl depth\<close> when the text ends first.\<close>

function scan_loop :: "string \<Rightarrow> nat \<Rightarrow> scan_state \<Rightarrow> int + nat" where
  "scan_loop text i st =
     (if i < length text
      then (case scan_char text i st of
              Found body_end \<Rightarrow> Inr body_end
            | Next j st1 \<Rightarrow> scan_loop text j st1)
      else Inl (depth st))"
  by pat_completeness auto
termination
  by (relation "measure (\<lambda>(text, i, st). length text - i)")
     (auto dest: scan_char_advances)

declare scan_loop.simps [simp del]

definition initial_state :: scan_state where
  "initial_state = \<lparr>depth = 0, in_string = False, in_char = False, in_sl_comment = False,
                     in_ml_comment = False, escape_next = False\<rparr>"

subsection \<open>The removal\<close>

text \<open>
  \<open>_remove_function_from_c_source(src_text, func)\<close> with \<open>debug\<close> off: the returned
  triple \<open>(new_text, removed, info_msg)\<close>.
\<close>

definition remove_function_from_c_source :: "string \<Rightarrow> string \<Rightarrow> string \<times> bool \<times> string" where
  "remove_function_from_c_source src_text func =
     (let text = replace_crlf src_text in
      case locate text func of
        Inl msg \<Rightarrow> (src_text, False, msg)
      | Inr (sig_start, brace_idx) \<Rightarrow>
          (case scan_loop text brace_idx initial_state of
             Inl final_depth \<Rightarrow> (src_text, False, unbalanced_msg func final_depth)
           | Inr body_end \<Rightarrow>
               (let n = length text;
                    cut_start = (if 0 < sig_start \<and> text ! (sig_start - 1) = LF
                                 then sig_start - 1 else sig_start);
                    cut_end = (if body_end < n \<and> text ! body_end = LF
                               then body_end + 1 else body_end);
                    new_text = take cut_start text @ drop cut_end text;
                    chars_removed = int cut_end - int cut_start
                in (new_text, True, removed_msg func chars_removed))))"

section \<open>Inputs of the examples\<close>

text \<open>A dump in which A calls B and B calls A, and the reverse map it parses to.\<close>

definition cycle_text :: string where
  "cycle_text =
     ''Call graph node for function: '' @ [QUOTE] @ ''A'' @ [QUOTE] @ ''<<0x55d0>>  #uses=2'' @ [LF] @
     ''  CS<0x55d8> calls function '' @ [QUOTE] @ ''B'' @ [QUOTE] @ [LF] @
     [LF] @
     ''Call graph node for function: '' @ [QUOTE] @ ''B'' @ [QUOTE] @ ''<<0x55e0>>  #uses=2'' @ [LF] @
     ''  CS<0x55e8> calls function '' @ [QUOTE] @ ''A'' @ [QUOTE] @ [LF]"

definition two_cycle :: pydict where
  "two_cycle = [(''B'', [''A'']), (''A'', [''B''])]"

text \<open>A forward map with a cycle through \<open>main\<close>.\<close>

definition fan :: pydict where
  "fan = [(''main'', [''b'', ''a'']), (''a'', [''c'']), (''c'', [''main''])]"

text \<open>
  A node that nothing calls, with a use count of 3, and two sources for it, the second
  of which takes its address; a dump whose only header names \<open>Foo\<close>.
\<close>

definition orphan_cg :: string where
  "orphan_cg = ''Call graph node for function: '' @ [QUOTE] @ ''orphan'' @ [QUOTE] @
               ''<<0x5581>>  #uses=3'' @ [LF]"

definition orphan_c :: string where
  "orphan_c = ''static int orphan(void) { return 1; }''"

definition orphan_ptr_c :: string where
  "orphan_ptr_c = ''static int orphan(void) { return 1; } void *p = &orphan;''"

definition case_cg :: string where
  "case_cg = ''Call graph node for function: '' @ [QUOTE] @ ''Foo'' @ [QUOTE] @
             ''<<0x5581>>  #uses=3'' @ [LF]"

text \<open>Sources for the removal.\<close>

definition bar_src :: string where
  "bar_src = ''void bar(int x);'' @ [LF] @ ''void bar(int x) { return; }''"

definition brace_src :: string where
  "brace_src = ''int a;'' @ [CR, LF] @ ''void f(void) { char *s = '' @ [DQUOTE] @ ''{'' @ [DQUOTE] @ ''; }'' @ [CR, LF] @ ''int b;'' @ [CR, LF]"

definition unbalanced_src :: string where
  "unbalanced_src = ''int a;'' @ [CR, LF] @ ''void f(void) { if (a) { a = 0; }'' @ [CR, LF]"

definition prototype_src :: string where
  "prototype_src = ''xbar(int x);'' @ [CR, LF] @ ''int t[] = { 1 };'' @ [CR, LF]"

definition literal_src :: string where
  "literal_src = ''void f(void) { char *s = '' @ [DQUOTE] @ ''{'' @ [DQUOTE] @ ''; }''"

definition escape_src :: string where
  "escape_src = ''void f(void) { char *s = '' @ [DQUOTE, BACKSLASH, DQUOTE] @ ''}'' @ [DQUOTE] @ ''; }''"

text \<open>
  A body with a digit separator and a string literal that holds an apostrophe and a
  closing brace; a prototype, a caller and the definition; a prototype and a caller
  with no definition.
\<close>

definition quote_src :: string where
  "quote_src = ''void f(void) { int n = 1'' @ [QUOTE] @ ''000; char *s = '' @ [DQUOTE] @ ''it''
               @ [QUOTE] @ ''s }'' @ [DQUOTE] @ ''; g(); }'' @ [LF] @ ''int z;''"

definition caller_src :: string where
  "caller_src = ''void bar(int x);'' @ [LF] @ ''void g(void) {'' @ [LF] @ ''  if (bar(1)) {'' @ [LF]
                @ ''    return;'' @ [LF] @ ''  }'' @ [LF] @ ''}'' @ [LF]
                @ ''void bar(int x) { return; }'' @ [LF]"

definition only_prototype_src :: string where
  "only_prototype_src = ''void bar(int x);'' @ [LF] @ ''int other(void) { return bar(1); }'' @ [LF]
                        @ ''int third(void) { return 0; }'' @ [LF]"

text \<open>A definition of 15 characters after an empty line.\<close>

definition blank_src :: string where
  "blank_src = ''int a;'' @ [LF, LF] @ ''void f(void) {}'' @ [LF] @ ''int b;''"

text \<open>
  The input of the prototype example up to the opening brace of the definition, and
  the characters that mean nothing to the scan of a body: no brace, no quote, no slash,
  no carriage return.
\<close>

definition bar_head :: string where
  "bar_head = ''void bar(int x);'' @ [LF] @ ''void bar(int x) {''"

definition plain_char :: "char \<Rightarrow> bool" where
  "plain_char c = (c \<notin> set [CHR ''{'', CHR ''}'', DQUOTE, QUOTE, CHR ''/'', CR])"

text \<open>Normal mode of the scan: none of its five flags is set.\<close>

definition normal_state :: "scan_state \<Rightarrow> bool" where
  "normal_state st = (\<not> escape_next st \<and> \<not> in_string st \<and> \<not> in_char st
                      \<and> \<not> in_sl_comment st \<and> \<not> in_ml_comment st)"

section \<open>The invariant of the two parsing passes\<close>

text \<open>
  Both passes are at the same node, the node is a key of the forward map, and the two
  maps hold the same edges.
\<close>

definition in_step :: "pydict \<times> string option \<Rightarrow> pydict \<times> string option \<Rightarrow> bool" where
  "in_step s1 s2 =
     (snd s1 = snd s2
      \<and> (\<forall>c. snd s2 = Some c \<longrightarrow> map_of (fst s2) c \<noteq> None)
      \<and> (\<forall>a b. b \<in> set (dict_get (fst s2) a) \<longleftrightarrow> a \<in> set (dict_get (fst s1) b)))"

section \<open>Properties of the traversals\<close>

subsection \<open>Unfolding the loops\<close>

lemma callers_loop_Nil: "callers_loop d seen [] = seen"
  by (simp add: callers_loop.simps [of d seen "[]"])

lemma callers_loop_old:
  "work \<noteq> [] \<Longrightarrow> last work \<in> set seen \<Longrightarrow>
   callers_loop d seen work = callers_loop d seen (butlast work)"
  by (simp add: callers_loop.simps [of d seen work] Let_def)

lemma callers_loop_new:
  "work \<noteq> [] \<Longrightarrow> last work \<notin> set seen \<Longrightarrow>
   callers_loop d seen work =
     callers_loop d (seen @ [last work])
       (butlast work @ filter (\<lambda>anc. anc \<notin> set (seen @ [last work])) (dict_get d (last work)))"
  by (simp add: callers_loop.simps [of d seen work] Let_def)

lemma callers_loop_keeps: "set seen \<union> set work \<subseteq> set (callers_loop d seen work)"
proof (induction d seen work rule: callers_loop.induct)
  case (1 d seen work)
  show ?case
  proof (cases "work = []")
    case True
    then show ?thesis by (simp add: callers_loop_Nil)
  next
    case False
    then have w: "set work = insert (last work) (set (butlast work))"
      by (metis append_butlast_last_id list.simps(15) rotate1.simps(2) set_rotate1)
    show ?thesis
    proof (cases "last work \<in> set seen")
      case True
      with False "1.IH"(1) [OF False refl refl True] w show ?thesis
        by (auto simp: callers_loop_old callers_loop_new)
    next
      case nin: False
      with False "1.IH"(2) [OF False refl refl nin refl] w show ?thesis
        by (auto simp: callers_loop_old callers_loop_new)
    qed
  qed
qed

lemma callers_loop_closed:
  "x \<in> set (callers_loop d seen work) \<Longrightarrow> x \<notin> set seen \<Longrightarrow>
   set (dict_get d x) \<subseteq> set (callers_loop d seen work)"
proof (induction d seen work rule: callers_loop.induct)
  case (1 d seen work)
  show ?case
  proof (cases "work = []")
    case True
    with "1.prems" show ?thesis by (simp add: callers_loop_Nil)
  next
    case False
    show ?thesis
    proof (cases "last work \<in> set seen")
      case True
      with False "1.IH"(1) [OF False refl refl True] "1.prems" show ?thesis
        by (auto simp: callers_loop_old callers_loop_new)
    next
      case nin: False
      let ?seen1 = "seen @ [last work]"
      let ?work2 = "butlast work @ filter (\<lambda>anc. anc \<notin> set ?seen1) (dict_get d (last work))"
      have eq: "callers_loop d seen work = callers_loop d ?seen1 ?work2"
        using False nin by (simp add: callers_loop_old callers_loop_new)
      show ?thesis
      proof (cases "x = last work")
        case True
        have "set (dict_get d x) \<subseteq> set ?seen1 \<union> set ?work2" using True by auto
        also have "\<dots> \<subseteq> set (callers_loop d ?seen1 ?work2)" by (rule callers_loop_keeps)
        finally show ?thesis by (simp add: eq)
      next
        case ne: False
        with "1.prems" have "x \<in> set (callers_loop d ?seen1 ?work2)" "x \<notin> set ?seen1"
          by (simp_all add: eq)
        with "1.IH"(2) [OF False refl refl nin refl] show ?thesis by (simp add: eq)
      qed
    qed
  qed
qed

lemma callers_loop_sound:
  "set seen \<subseteq> {a. (a, t) \<in> (edges_into d)\<^sup>+} \<Longrightarrow> set work \<subseteq> {a. (a, t) \<in> (edges_into d)\<^sup>+} \<Longrightarrow>
   set (callers_loop d seen work) \<subseteq> {a. (a, t) \<in> (edges_into d)\<^sup>+}"
proof (induction d seen work rule: callers_loop.induct)
  case (1 d seen work)
  show ?case
  proof (cases "work = []")
    case True
    with "1.prems" show ?thesis by (simp add: callers_loop_Nil)
  next
    case False
    then have lw: "last work \<in> set work" by simp
    have bl: "set (butlast work) \<subseteq> set work" by (auto dest: in_set_butlastD)
    show ?thesis
    proof (cases "last work \<in> set seen")
      case True
      have "set (callers_loop d seen (butlast work)) \<subseteq> {a. (a, t) \<in> (edges_into d)\<^sup>+}"
        using "1.IH"(1) [OF False refl refl True] "1.prems" bl by blast
      with False True show ?thesis
        by (simp add: callers_loop_old callers_loop_new)
    next
      case nin: False
      let ?seen1 = "seen @ [last work]"
      let ?work2 = "butlast work @ filter (\<lambda>anc. anc \<notin> set ?seen1) (dict_get d (last work))"
      have eq: "callers_loop d seen work = callers_loop d ?seen1 ?work2"
        using False nin by (simp add: callers_loop_old callers_loop_new)
      have who: "(last work, t) \<in> (edges_into d)\<^sup>+" using lw "1.prems"(2) by blast
      have anc: "(a, t) \<in> (edges_into d)\<^sup>+" if "a \<in> set (dict_get d (last work))" for a
      proof -
        from that have "(a, last work) \<in> edges_into d" by (simp add: edges_into_def)
        then show ?thesis using who by (rule trancl_into_trancl2)
      qed
      have s1: "set ?seen1 \<subseteq> {a. (a, t) \<in> (edges_into d)\<^sup>+}" using "1.prems"(1) who by simp
      have w2: "set ?work2 \<subseteq> {a. (a, t) \<in> (edges_into d)\<^sup>+}"
        using "1.prems"(2) bl anc by auto
      show ?thesis using "1.IH"(2) [OF False refl refl nin refl s1 w2] by (simp add: eq)
    qed
  qed
qed

lemma callers_loop_distinct: "distinct seen \<Longrightarrow> distinct (callers_loop d seen work)"
proof (induction d seen work rule: callers_loop.induct)
  case (1 d seen work)
  show ?case
  proof (cases "work = []")
    case True
    with "1.prems" show ?thesis by (simp add: callers_loop_Nil)
  next
    case False
    show ?thesis
    proof (cases "last work \<in> set seen")
      case True
      with False "1.IH"(1) [OF False refl refl True] "1.prems" show ?thesis
        by (simp add: callers_loop_old callers_loop_new)
    next
      case nin: False
      with "1.prems" have "distinct (seen @ [last work])" by simp
      with False nin "1.IH"(2) [OF False refl refl nin refl] show ?thesis
        by (simp add: callers_loop_old callers_loop_new)
    qed
  qed
qed

lemma callers_loop_reach:
  "set (callers_loop d [] (dict_get d t)) = {a. (a, t) \<in> (edges_into d)\<^sup>+}"
proof
  have "set (dict_get d t) \<subseteq> {a. (a, t) \<in> (edges_into d)\<^sup>+}"
    by (auto simp: edges_into_def)
  then show "set (callers_loop d [] (dict_get d t)) \<subseteq> {a. (a, t) \<in> (edges_into d)\<^sup>+}"
    by (intro callers_loop_sound) simp_all
next
  let ?R = "set (callers_loop d [] (dict_get d t))"
  have direct: "set (dict_get d t) \<subseteq> ?R" using callers_loop_keeps [of "[]" "dict_get d t" d] by simp
  have closed: "set (dict_get d x) \<subseteq> ?R" if "x \<in> ?R" for x
    using callers_loop_closed [OF that] by simp
  have "a \<in> ?R" if "(a, t) \<in> (edges_into d)\<^sup>+" for a
    using that
  proof (induction rule: converse_trancl_induct)
    case (base y)
    then show ?case using direct by (auto simp: edges_into_def)
  next
    case (step y z)
    then show ?case using closed [of z] by (auto simp: edges_into_def)
  qed
  then show "{a. (a, t) \<in> (edges_into d)\<^sup>+} \<subseteq> ?R" by blast
qed

lemma callees_loop_Nil: "callees_loop d m seen [] = seen"
  by (simp add: callees_loop.simps [of d m seen "[]"])

lemma callees_loop_skip:
  "work \<noteq> [] \<Longrightarrow> fst (last work) \<in> set seen \<or> snd (last work) > m \<Longrightarrow>
   callees_loop d m seen work = callees_loop d m seen (butlast work)"
  by (simp add: callees_loop.simps [of d m seen work] Let_def)

lemma callees_loop_new:
  "work \<noteq> [] \<Longrightarrow> \<not> (fst (last work) \<in> set seen \<or> snd (last work) > m) \<Longrightarrow>
   callees_loop d m seen work =
     callees_loop d m (seen @ [fst (last work)])
       (butlast work @ map (\<lambda>callee. (callee, snd (last work) + 1))
          (filter (\<lambda>callee. callee \<notin> set (seen @ [fst (last work)])) (dict_get d (fst (last work)))))"
  by (simp add: callees_loop.simps [of d m seen work] Let_def)

lemma set_snoc_last: "work \<noteq> [] \<Longrightarrow> set work = insert (last work) (set (butlast work))"
  by (metis append_butlast_last_id list.simps(15) rotate1.simps(2) set_rotate1)

lemma callees_loop_depth1:
  "distinct seen \<Longrightarrow> (\<forall>p \<in> set work. 1 \<le> snd p) \<Longrightarrow>
   distinct (callees_loop d 1 seen work) \<and>
   set (callees_loop d 1 seen work) = set seen \<union> {w. (w, 1) \<in> set work}"
proof (induction d "1::int" seen work rule: callees_loop.induct)
  case (1 d seen work)
  show ?case
  proof (cases "work = []")
    case True
    with "1.prems" show ?thesis by (simp add: callees_loop_Nil)
  next
    case False
    note w = set_snoc_last [OF False]
    have bl: "\<forall>p \<in> set (butlast work). 1 \<le> snd p" using "1.prems"(2) w by simp
    obtain who dep where lw: "last work = (who, dep)" by (cases "last work")
    have d1: "1 \<le> dep" using "1.prems"(2) w lw by simp
    show ?thesis
    proof (cases "who \<in> set seen \<or> dep > 1")
      case True
      then have skip: "fst (last work) \<in> set seen \<or> snd (last work) > 1" by (simp add: lw)
      have IH: "distinct (callees_loop d 1 seen (butlast work)) \<and>
        set (callees_loop d 1 seen (butlast work)) = set seen \<union> {w. (w, 1) \<in> set (butlast work)}"
        using "1.hyps"(1) [OF False refl refl refl skip "1.prems"(1) bl] .
      have "set seen \<union> {w. (w, 1) \<in> set work} = set seen \<union> {w. (w, 1) \<in> set (butlast work)}"
        using True w lw by auto
      with IH show ?thesis by (simp add: callees_loop_skip [OF False skip])
    next
      case nskip: False
      then have ns: "\<not> (fst (last work) \<in> set seen \<or> snd (last work) > 1)" by (simp add: lw)
      from nskip d1 have dep1: "dep = 1" and nin: "who \<notin> set seen" by auto
      let ?seen1 = "seen @ [fst (last work)]"
      let ?work2 = "butlast work @ map (\<lambda>callee. (callee, snd (last work) + 1))
          (filter (\<lambda>callee. callee \<notin> set ?seen1) (dict_get d (fst (last work))))"
      have ds: "distinct ?seen1" using "1.prems"(1) nin lw by simp
      have w2: "\<forall>p \<in> set ?work2. 1 \<le> snd p" using bl lw dep1 by auto
      have IH: "distinct (callees_loop d 1 ?seen1 ?work2) \<and>
        set (callees_loop d 1 ?seen1 ?work2) = set ?seen1 \<union> {w. (w, 1) \<in> set ?work2}"
        using "1.hyps"(2) [OF False refl refl refl ns refl ds w2] .
      have "{w. (w, 1) \<in> set ?work2} = {w. (w, 1) \<in> set (butlast work)}"
        using lw dep1 by auto
      moreover have "set seen \<union> {w. (w, 1) \<in> set work} = set ?seen1 \<union> {w. (w, 1) \<in> set (butlast work)}"
        using w lw dep1 by auto
      ultimately show ?thesis using IH by (simp add: callees_loop_new [OF False ns])
    qed
  qed
qed

lemma sort_distinct_eq: "distinct xs \<Longrightarrow> sort xs = sorted_list_of_set (set xs)"
  by (simp add: sorted_list_of_set_sort_remdups distinct_remdups_id)

lemma cycle_text_callers: "parse_callgraph_text cycle_text = two_cycle"
  by code_simp

lemma two_cycle_callers: "get_transitive_callers two_cycle ''A'' = [''A'', ''B'']"
  by (simp add: get_transitive_callers_def two_cycle_def dict_get_def callers_loop.simps)

text \<open>
  Claim C1, as the code has it: \<open>get_transitive_callers\<close> returns, sorted and without
  repetition, exactly the names from which the target is reached along one or more call
  edges. The result contains every direct caller. It contains the target itself exactly
  when the target lies on a call cycle; the traversal has no test that leaves the target
  out.
\<close>

theorem transitive_callers_reach:
  "set (get_transitive_callers callers_map target) = {a. (a, target) \<in> (edges_into callers_map)\<^sup>+}
   \<and> sorted (get_transitive_callers callers_map target)
   \<and> distinct (get_transitive_callers callers_map target)
   \<and> set (dict_get callers_map target) \<subseteq> set (get_transitive_callers callers_map target)
   \<and> (target \<in> set (get_transitive_callers callers_map target)
        \<longleftrightarrow> (target, target) \<in> (edges_into callers_map)\<^sup>+)"
proof -
  let ?loop = "callers_loop callers_map [] (dict_get callers_map target)"
  have reach: "set ?loop = {a. (a, target) \<in> (edges_into callers_map)\<^sup>+}"
    by (rule callers_loop_reach)
  have dist: "distinct ?loop" by (rule callers_loop_distinct) simp
  have direct: "set (dict_get callers_map target) \<subseteq> set ?loop"
    using callers_loop_keeps [of "[]" "dict_get callers_map target" callers_map] by simp
  show ?thesis
    unfolding get_transitive_callers_def using reach dist direct by simp
qed

text \<open>On the cycle where A calls B and B calls A, the result for A is B once, and A.\<close>

theorem transitive_callers_reach_witness:
  "get_transitive_callers (parse_callgraph_text cycle_text) ''A'' = [''A'', ''B'']
   \<and> (''A'', ''A'') \<in> (edges_into (parse_callgraph_text cycle_text))\<^sup>+
   \<and> count_list (get_transitive_callers (parse_callgraph_text cycle_text) ''A'') ''B'' = 1"
  using transitive_callers_reach [of two_cycle "''A''"]
  by (simp add: two_cycle_callers cycle_text_callers)

text \<open>Claim C1 as stated fails: the transitive callers of A on that cycle contain A.\<close>

theorem transitive_callers_contains_target:
  "''A'' \<in> set (get_transitive_callers (parse_callgraph_text cycle_text) ''A'')"
  by (simp add: two_cycle_callers cycle_text_callers)

text \<open>
  Claim C7: with \<open>max_depth = 1\<close> the transitive callees of a target are its direct
  callees, sorted.
\<close>

theorem transitive_callees_depth_one:
  "get_transitive_callees callees_map target 1 = sorted_list_of_set (set (dict_get callees_map target))"
proof -
  let ?work = "map (\<lambda>callee. (callee, 1::int)) (dict_get callees_map target)"
  have "distinct (callees_loop callees_map 1 [] ?work) \<and>
        set (callees_loop callees_map 1 [] ?work) = set [] \<union> {w. (w, 1) \<in> set ?work}"
    by (rule callees_loop_depth1) auto
  moreover have "{w. (w, 1::int) \<in> set ?work} = set (dict_get callees_map target)" by auto
  ultimately show ?thesis by (simp add: get_transitive_callees_def sort_distinct_eq)
qed

theorem transitive_callees_depth_one_witness:
  "get_transitive_callees fan ''main'' 1 = [''a'', ''b'']"
  using transitive_callees_depth_one [of fan "''main''"]
  by (simp add: fan_def dict_get_def sorted_list_of_set_sort_remdups)

section \<open>Properties of the call-graph parser\<close>

lemma map_of_dict_set: "map_of (dict_set d k vs) = (map_of d)(k \<mapsto> vs)"
  by (induction d k vs rule: dict_set.induct) auto

lemma dict_get_dict_set:
  "dict_get (dict_set d k vs) k1 = (if k1 = k then vs else dict_get d k1)"
  by (simp add: dict_get_def map_of_dict_set)

lemma map_of_dict_setdefault:
  "map_of (dict_setdefault d k) k1 =
     (if k1 = k \<and> map_of d k = None then Some [] else map_of d k1)"
  by (auto simp: dict_setdefault_def map_add_def split: option.splits)

lemma dict_get_dict_setdefault: "dict_get (dict_setdefault d k) k1 = dict_get d k1"
  by (auto simp: dict_get_def map_of_dict_setdefault split: option.splits)

lemma set_set_add: "set (set_add vs v) = insert v (set vs)"
  by (auto simp: set_add_def)

lemma in_step_line:
  assumes "in_step s1 s2"
  shows "\<exists>s2a. callees_line s2 line = Inr s2a \<and> in_step (callers_line s1 line) s2a"
proof -
  obtain cm cur where s1: "s1 = (cm, cur)" by (cases s1)
  obtain em cur2 where s2: "s2 = (em, cur2)" by (cases s2)
  from assms have cur2: "cur2 = cur"
    and key: "\<And>c. cur = Some c \<Longrightarrow> map_of em c \<noteq> None"
    and edges: "\<And>a b. b \<in> set (dict_get em a) \<longleftrightarrow> a \<in> set (dict_get cm b)"
    by (simp_all add: in_step_def s1 s2)
  show ?thesis
  proof (cases "node_rx_match line")
    case (Some name)
    then show ?thesis
      using key edges
      by (simp add: callees_line_def callers_line_def s1 s2 cur2 in_step_def
          dict_get_dict_setdefault map_of_dict_setdefault)
  next
    case None
    show ?thesis
    proof (cases "\<exists>c callee. cur = Some c \<and> c \<noteq> [] \<and> call_rx_match line = Some callee")
      case False
      then show ?thesis
        using None assms
        by (auto simp: callees_line_def callers_line_def s1 s2 cur2 split: option.splits)
    next
      case True
      then obtain c callee where c: "cur = Some c" "c \<noteq> []" "call_rx_match line = Some callee"
        by blast
      from key [OF c(1)] obtain vs where vs: "map_of em c = Some vs" by blast
      then have vs_get: "dict_get em c = vs" by (simp add: dict_get_def)
      have 1: "callees_line s2 line = Inr (dict_set em c (set_add vs callee), cur)"
        using None c vs by (simp add: callees_line_def s2 cur2)
      have 2: "callers_line s1 line =
          (dict_set (dict_setdefault cm callee) callee (set_add (dict_get cm callee) c), cur)"
        using None c by (simp add: callers_line_def s1)
      have "in_step (callers_line s1 line) (dict_set em c (set_add vs callee), cur)"
        unfolding 2 in_step_def
        using key edges vs_get
        by (auto simp: dict_get_dict_set map_of_dict_set set_set_add dict_get_dict_setdefault)
      with 1 show ?thesis by blast
    qed
  qed
qed

lemma in_step_lines:
  "in_step s1 s2 \<Longrightarrow>
   \<exists>em. callees_lines s2 lines = Inr em \<and>
     (\<forall>a b. b \<in> set (dict_get em a) \<longleftrightarrow> a \<in> set (dict_get (fst (foldl callers_line s1 lines)) b))"
proof (induction lines arbitrary: s1 s2)
  case Nil
  then show ?case by (simp add: in_step_def)
next
  case (Cons line lines)
  from in_step_line [OF Cons.prems, of line] obtain s2a
    where a: "callees_line s2 line = Inr s2a" and b: "in_step (callers_line s1 line) s2a"
    by blast
  from Cons.IH [OF b] a show ?case by simp
qed

lemma cycle_text_callees: "parse_callees_map cycle_text = Inr [(''A'', [''B'']), (''B'', [''A''])]"
  by code_simp

text \<open>
  Claim C4: for every call-graph text the second pass returns a dictionary (it never
  raises), and its edges are those of the first pass: \<open>b\<close> is a callee of \<open>a\<close> in
  the forward map exactly when \<open>a\<close> is a caller of \<open>b\<close> in the reverse map.
\<close>

theorem forward_reverse_agree:
  "\<exists>callees_map. parse_callees_map text = Inr callees_map \<and>
     (\<forall>a b. b \<in> set (dict_get callees_map a) \<longleftrightarrow> a \<in> set (dict_get (parse_callgraph_text text) b))"
  unfolding parse_callees_map_def parse_callgraph_text_def
  by (rule in_step_lines) (simp add: in_step_def dict_get_def)

theorem forward_reverse_agree_witness:
  "\<exists>callees_map. parse_callees_map cycle_text = Inr callees_map
     \<and> ''B'' \<in> set (dict_get callees_map ''A'')
     \<and> ''A'' \<in> set (dict_get (parse_callgraph_text cycle_text) ''B'')
     \<and> ''B'' \<notin> set (dict_get callees_map ''B'')"
  using forward_reverse_agree [of cycle_text] cycle_text_callers cycle_text_callees by (auto simp: dict_get_def two_cycle_def)

section \<open>Properties of the metadata, the pointer scan and the decision\<close>

lemma ci_strip_prefix_lower:
  "map py_lower p = map py_lower q \<Longrightarrow> ci_strip_prefix p xs = ci_strip_prefix q xs"
proof (induction p xs arbitrary: q rule: ci_strip_prefix.induct)
  case (1 xs)
  then show ?case by simp
next
  case (2 p ps)
  then show ?case by (cases q) simp_all
next
  case (3 p ps x xs)
  then show ?case by (cases q) auto
qed

lemma header_match_lower:
  "map py_lower t1 = map py_lower t2 \<Longrightarrow> header_match t1 xs = header_match t2 xs"
proof -
  assume "map py_lower t1 = map py_lower t2"
  then have "map py_lower ([QUOTE] @ t1 @ [QUOTE]) = map py_lower ([QUOTE] @ t2 @ [QUOTE])"
    by simp
  then have eq: "ci_strip_prefix ([QUOTE] @ t1 @ [QUOTE]) ys = ci_strip_prefix ([QUOTE] @ t2 @ [QUOTE]) ys"
    for ys by (rule ci_strip_prefix_lower)
  show ?thesis unfolding header_match_def eq ..
qed

lemma header_search_lower:
  "map py_lower t1 = map py_lower t2 \<Longrightarrow> header_search t1 xs = header_search t2 xs"
  by (induction xs) (simp_all add: header_match_lower [of t1 t2] split: option.splits)

text \<open>
  Claim C8 on the code: the only header of \<open>case_cg\<close> names \<open>Foo\<close>, and the hint read
  for the target \<open>foo\<close> is 3, not 0. The first pass, which matches headers with
  \<open>NODE_RX\<close>, keeps the two names apart. For every text, two targets that differ in
  letter case only get the same hint.
\<close>

theorem metadata_ignores_case:
  "uses_count (parse_function_metadata case_cg ''foo'') = 3
   \<and> node_rx_match (hd (splitlines case_cg)) = Some ''Foo''
   \<and> (map py_lower target1 = map py_lower target2 \<longrightarrow>
        uses_count (parse_function_metadata text target1)
          = uses_count (parse_function_metadata text target2))"
proof (intro conjI impI)
  show "uses_count (parse_function_metadata case_cg ''foo'') = 3" by code_simp
  show "node_rx_match (hd (splitlines case_cg)) = Some ''Foo''" by code_simp
next
  assume "map py_lower target1 = map py_lower target2"
  then have "header_search target1 text = header_search target2 text"
    by (rule header_search_lower)
  then show "uses_count (parse_function_metadata text target1)
          = uses_count (parse_function_metadata text target2)"
    by (simp add: parse_function_metadata_def Let_def split: option.splits)
qed

theorem metadata_ignores_case_witness:
  "uses_count (parse_function_metadata case_cg ''Foo'') = 3
   \<and> uses_count (parse_function_metadata case_cg ''FOO'') = 3"
proof -
  have 1: "map py_lower ''Foo'' = map py_lower ''foo''" by code_simp
  have 2: "map py_lower ''FOO'' = map py_lower ''foo''" by code_simp
  from metadata_ignores_case [of "''Foo''" "''foo''" case_cg] 1
  have "uses_count (parse_function_metadata case_cg ''Foo'') = 3" by simp
  moreover from metadata_ignores_case [of "''FOO''" "''foo''" case_cg] 2
  have "uses_count (parse_function_metadata case_cg ''FOO'') = 3" by simp
  ultimately show ?thesis by simp
qed


lemma foldl_addr_step_snippets:
  "length (context_snippets (foldl (addr_step c_text) result ms))
     = length (context_snippets result) + length ms"
  by (induction ms arbitrary: result) (simp_all add: addr_step_def Let_def)

lemma foldl_registration_step_snippets:
  "length (context_snippets (foldl (registration_step c_text target) result ms))
     = length (context_snippets result) + length (filter (\<lambda>mt. snd (snd mt) = target) ms)"
  by (induction ms arbitrary: result) (simp_all add: registration_step_def Let_def)

lemma bare_step_snippets:
  "length (context_snippets result) \<le> length (context_snippets (bare_step c_text result mt))
   \<and> length (context_snippets (bare_step c_text result mt)) \<le> max 5 (length (context_snippets result))"
  by (simp add: bare_step_def Let_def)

lemma foldl_bare_step_snippets:
  "length (context_snippets result) \<le> length (context_snippets (foldl (bare_step c_text) result ms))
   \<and> length (context_snippets (foldl (bare_step c_text) result ms))
        \<le> max 5 (length (context_snippets result))"
proof (induction ms arbitrary: result)
  case Nil
  then show ?case by simp
next
  case (Cons mt ms)
  from Cons.IH [of "bare_step c_text result mt"] bare_step_snippets [of result c_text mt]
  show ?case by auto
qed

text \<open>
  Claim C3, as the code has it. Only a bare-name match is held back once five snippets
  have been captured; every address-of match and every registration match adds its
  snippet. The number of snippets is therefore at least the number of those matches, and
  at most the larger of 5 and that number.
\<close>

theorem snippets_bound:
  "length (addr_matches c_text target) + length (registration_matches c_text target)
     \<le> length (context_snippets (check_function_pointer_usage c_text target))
   \<and> length (context_snippets (check_function_pointer_usage c_text target))
     \<le> max 5 (length (addr_matches c_text target) + length (registration_matches c_text target))"
proof -
  let ?r0 = "\<lparr>has_address_taken = False, function_registration = [],
               suspicious_patterns = [], context_snippets = []\<rparr>"
  let ?r1 = "foldl (addr_step c_text) ?r0 (finditer (addr_match target) c_text)"
  let ?r2 = "foldl (registration_step c_text target) ?r1
               (finditer (sqlite_match ''sqlite3_create_function'') c_text)"
  let ?r3 = "foldl (registration_step c_text target) ?r2
               (finditer (sqlite_match ''sqlite3_create_function_v2'') c_text)"
  have r: "check_function_pointer_usage c_text target
             = foldl (bare_step c_text) ?r3 (finditer (bare_match target) c_text)"
    by (simp add: check_function_pointer_usage_def Let_def)
  have n: "length (context_snippets ?r3)
             = length (addr_matches c_text target) + length (registration_matches c_text target)"
    by (simp add: foldl_addr_step_snippets foldl_registration_step_snippets
        addr_matches_def registration_matches_def)
  show ?thesis
    unfolding r using foldl_bare_step_snippets [of ?r3 c_text "finditer (bare_match target) c_text"]
    by (simp only: n)
qed

lemma eight_refs: "length (context_snippets (check_function_pointer_usage ''&f &f &f &f &f &f &f &f'' ''f'')) = 8"
  by code_simp

lemma eight_addr: "length (addr_matches ''&f &f &f &f &f &f &f &f'' ''f'') = 8"
  by code_simp

theorem snippets_bound_witness:
  "length (context_snippets (check_function_pointer_usage ''&f &f &f &f &f &f &f &f'' ''f'')) = 8
   \<and> length (registration_matches ''&f &f &f &f &f &f &f &f'' ''f'') = 0"
  using snippets_bound [of "''&f &f &f &f &f &f &f &f''" "''f''"] eight_refs eight_addr
  by simp

text \<open>Claim C3 as stated fails: eight address-of matches give eight snippets.\<close>

theorem snippets_exceed_cap:
  "5 < length (context_snippets (check_function_pointer_usage ''&f &f &f &f &f &f &f &f'' ''f''))"
  by (simp add: eight_refs)
lemma orphan_analysis:
  "analyze_target (parse_callgraph_text orphan_cg) [(''orphan'', [])] orphan_cg orphan_c ''orphan''
   = \<lparr>res_target = ''orphan'', res_callers = [], res_callers_transitive = [],
       res_callees = [], res_callees_transitive = [],
       res_decision = ''SAFE_TO_REMOVE'',
       res_function_metadata =
         \<lparr>fn_name = ''orphan'', uses_count = 3, has_callers = False,
            md_callers = [], is_exported = False, md_has_address_taken = False\<rparr>,
       res_pointer_usage =
         \<lparr>has_address_taken = False, function_registration = [],
            suspicious_patterns = [], context_snippets = []\<rparr>,
       res_edge_case_warnings = [uses_warning 3]\<rparr>"
  by code_simp

lemma orphan_callees: "parse_callees_map orphan_cg = Inr [(''orphan'', [])]"
  by code_simp

lemma orphan_ptr_evidence:
  "has_address_taken (res_pointer_usage
     (analyze_target (parse_callgraph_text orphan_cg) [(''orphan'', [])] orphan_cg orphan_ptr_c ''orphan''))"
  by code_simp

text \<open>
  Claim C2, as the code has it. The decision is \<open>DEPENDENT\<close> exactly when the target has
  a direct or transitive caller, or address-of evidence, or registration evidence; the
  two kinds of evidence add the override warning. A reference-count hint above 0 with no
  caller adds its warning and leaves the decision as it is.
\<close>

theorem decision_rule:
  fixes callers_map callees_map :: pydict and cg_text c_text target :: string
  defines "r \<equiv> analyze_target callers_map callees_map cg_text c_text target"
  shows
    "(res_decision r = ''DEPENDENT'' \<or> res_decision r = ''SAFE_TO_REMOVE'')
     \<and> (res_decision r = ''DEPENDENT''
          \<longleftrightarrow> (res_callers r \<noteq> [] \<or> res_callers_transitive r \<noteq> []
               \<or> has_address_taken (res_pointer_usage r)
               \<or> function_registration (res_pointer_usage r) \<noteq> []))
     \<and> (res_callers r = [] \<and> res_callers_transitive r = []
          \<and> uses_count (res_function_metadata r) > 0
          \<longrightarrow> uses_warning (uses_count (res_function_metadata r)) \<in> set (res_edge_case_warnings r))
     \<and> (has_address_taken (res_pointer_usage r) \<or> function_registration (res_pointer_usage r) \<noteq> []
          \<longrightarrow> override_warning \<in> set (res_edge_case_warnings r))"
  unfolding r_def by (auto simp: analyze_target_def Let_def)

lemma orphan_ptr_callers:
  "res_callers (analyze_target (parse_callgraph_text orphan_cg) [(''orphan'', [])] orphan_cg orphan_ptr_c ''orphan'') = []
   \<and> res_callers_transitive
        (analyze_target (parse_callgraph_text orphan_cg) [(''orphan'', [])] orphan_cg orphan_ptr_c ''orphan'') = []
   \<and> uses_count (res_function_metadata
        (analyze_target (parse_callgraph_text orphan_cg) [(''orphan'', [])] orphan_cg orphan_ptr_c ''orphan'')) = 3"
  by code_simp

text \<open>
  A target without callers, with a hint of 3 and its address taken: the decision is
  \<open>DEPENDENT\<close>, and both warnings are there.
\<close>

theorem decision_rule_witness:
  "res_decision (analyze_target (parse_callgraph_text orphan_cg) [(''orphan'', [])] orphan_cg orphan_ptr_c ''orphan'')
     = ''DEPENDENT''
   \<and> override_warning \<in> set (res_edge_case_warnings
         (analyze_target (parse_callgraph_text orphan_cg) [(''orphan'', [])] orphan_cg orphan_ptr_c ''orphan''))
   \<and> uses_warning 3 \<in> set (res_edge_case_warnings
         (analyze_target (parse_callgraph_text orphan_cg) [(''orphan'', [])] orphan_cg orphan_ptr_c ''orphan''))"
  using decision_rule [of "parse_callgraph_text orphan_cg" "[(''orphan'', [])]" orphan_cg orphan_ptr_c "''orphan''"]
    orphan_ptr_evidence orphan_ptr_callers
  by auto

text \<open>
  Claim C2 as stated fails: with no caller, a hint of 3 and no evidence the decision is
  \<open>SAFE_TO_REMOVE\<close>.
\<close>

theorem uses_hint_keeps_safe:
  "res_callers (analyze_target (parse_callgraph_text orphan_cg) [(''orphan'', [])] orphan_cg orphan_c ''orphan'') = []
   \<and> res_callers_transitive (analyze_target (parse_callgraph_text orphan_cg) [(''orphan'', [])] orphan_cg orphan_c ''orphan'') = []
   \<and> uses_count (res_function_metadata
         (analyze_target (parse_callgraph_text orphan_cg) [(''orphan'', [])] orphan_cg orphan_c ''orphan'')) = 3
   \<and> res_decision (analyze_target (parse_callgraph_text orphan_cg) [(''orphan'', [])] orphan_cg orphan_c ''orphan'')
        = ''SAFE_TO_REMOVE''"
  by (simp add: orphan_analysis)

section \<open>Properties of the removal\<close>

lemma locate_fallback_Inl:
  "locate_fallback text func = Inl msg \<Longrightarrow>
   msg = not_found_msg func \<or> msg = no_brace_msg func \<or> msg = prototype_msg func"
  by (auto simp: locate_fallback_def Let_def split: option.splits if_splits)

lemma locate_Inl:
  "locate text func = Inl msg \<Longrightarrow>
   msg = not_found_msg func \<or> msg = no_brace_msg func \<or> msg = prototype_msg func"
  by (auto simp: locate_def split: option.splits dest: locate_fallback_Inl)

text \<open>
  Claim C9. The removal is a total function: every index it reads lies under the guard
  the source puts before it, and each of its returns is a triple. Whenever \<open>removed\<close>
  is false the returned text is the input itself, not its copy with the line ends
  rewritten, and the message is one of the four failure messages; \<open>removed\<close> is true
  exactly when the definition is found and the scan comes back to depth 0.
\<close>

theorem failure_returns_input:
  "(\<not> fst (snd (remove_function_from_c_source src_text func)) \<longrightarrow>
     fst (remove_function_from_c_source src_text func) = src_text
     \<and> (snd (snd (remove_function_from_c_source src_text func)) = not_found_msg func
        \<or> snd (snd (remove_function_from_c_source src_text func)) = no_brace_msg func
        \<or> snd (snd (remove_function_from_c_source src_text func)) = prototype_msg func
        \<or> (\<exists>d. snd (snd (remove_function_from_c_source src_text func)) = unbalanced_msg func d)))
   \<and> (fst (snd (remove_function_from_c_source src_text func)) \<longleftrightarrow>
        (\<exists>sig_start brace_idx body_end.
           locate (replace_crlf src_text) func = Inr (sig_start, brace_idx)
           \<and> scan_loop (replace_crlf src_text) brace_idx initial_state = Inr body_end))"
proof (cases "locate (replace_crlf src_text) func")
  case (Inl msg)
  from locate_Inl [OF Inl] Inl show ?thesis
    by (auto simp: remove_function_from_c_source_def)
next
  case (Inr sb)
  then show ?thesis
    by (cases sb; cases "scan_loop (replace_crlf src_text) (snd sb) initial_state")
       (auto simp: remove_function_from_c_source_def Let_def)
qed

lemma literal_at_single: "literal_at [c] text k \<longleftrightarrow> k < length text \<and> text ! k = c"
proof (cases "k < length text")
  case True
  then have "drop k text = text ! k # drop (Suc k) text" by (simp add: Cons_nth_drop_Suc)
  then show ?thesis using True by (simp add: literal_at_def)
next
  case False
  then show ?thesis by (simp add: literal_at_def)
qed

lemma find_sub_Some:
  "find_sub pat t i = Some k \<Longrightarrow> i \<le> k \<and> literal_at pat t k \<and> k + length pat \<le> length t"
proof (induction pat t i rule: find_sub.induct)
  case (1 pat t i)
  show ?case
  proof (cases "length t < i + length pat")
    case True
    with "1.prems" show ?thesis by (simp add: find_sub.simps [of pat t i])
  next
    case False
    show ?thesis
    proof (cases "literal_at pat t i")
      case True
      with False "1.prems" show ?thesis by (simp add: find_sub.simps [of pat t i])
    next
      case nl: False
      with False "1.prems" have "find_sub pat t (i + 1) = Some k"
        by (simp add: find_sub.simps [of pat t i])
      with "1.IH" [OF False nl] show ?thesis by simp
    qed
  qed
qed

lemma brace_after_Some:
  "brace_after t j = Some e \<Longrightarrow>
   j < e \<and> e \<le> length t \<and> t ! (e - 1) = CHR ''{''
   \<and> (\<forall>m. j \<le> m \<and> m < e - 1 \<longrightarrow> t ! m \<noteq> CHR '';'')"
proof (induction t j rule: brace_after.induct)
  case (1 t j)
  show ?case
  proof (cases "j < length t \<and> t ! j \<noteq> CHR ''{'' \<and> t ! j \<noteq> CHR '';''")
    case True
    with "1.prems" have next_eq: "brace_after t (j + 1) = Some e"
      by (simp add: brace_after.simps [of t j])
    from True "1.IH" next_eq
    have IH: "j + 1 < e \<and> e \<le> length t \<and> t ! (e - 1) = CHR ''{''
      \<and> (\<forall>m. j + 1 \<le> m \<and> m < e - 1 \<longrightarrow> t ! m \<noteq> CHR '';'')" by simp
    have "t ! m \<noteq> CHR '';''" if "j \<le> m" "m < e - 1" for m
    proof (cases "m = j")
      case True
      then show ?thesis using \<open>j < length t \<and> t ! j \<noteq> CHR ''{'' \<and> t ! j \<noteq> CHR '';''\<close> by simp
    next
      case False
      with that IH show ?thesis by simp
    qed
    with IH show ?thesis by simp
  next
    case False
    with "1.prems" show ?thesis
      by (auto simp: brace_after.simps [of t j] split: if_splits)
  qed
qed

lemma rest_at_Some:
  assumes "rest_at text func q = Some e"
  shows "q < e \<and> e \<le> length text \<and> text ! (e - 1) = CHR ''{''
     \<and> literal_at func text q
     \<and> (\<exists>k. q \<le> k \<and> k < e - 1 \<and> text ! k = CHR '')''
            \<and> (\<forall>m. k < m \<and> m < e - 1 \<longrightarrow> text ! m \<noteq> CHR '';''))"
proof -
  let ?j = "skip_space text (q + length func)"
  from assms have lit: "literal_at func text q"
    by (auto simp: rest_at_def split: if_splits)
  from assms obtain k where k: "find_sub '')'' text (?j + 1) = Some k"
    and b: "brace_after text (k + 1) = Some e"
    by (auto simp: rest_at_def Let_def split: if_splits option.splits)
  from find_sub_Some [OF k] have k1: "?j + 1 \<le> k" "k < length text" "text ! k = CHR '')''"
    by (simp_all add: literal_at_single)
  have qj: "q \<le> ?j" by (simp add: skip_space_def)
  from brace_after_Some [OF b]
  have e: "k + 1 < e" "e \<le> length text" "text ! (e - 1) = CHR ''{''"
    "\<forall>m. k + 1 \<le> m \<and> m < e - 1 \<longrightarrow> text ! m \<noteq> CHR '';''" by simp_all
  have "q \<le> k \<and> k < e - 1 \<and> text ! k = CHR '')''
     \<and> (\<forall>m. k < m \<and> m < e - 1 \<longrightarrow> text ! m \<noteq> CHR '';'')"
    using k1 qj e by auto
  then show ?thesis using lit e k1 qj by (intro conjI exI [of _ k]) auto
qed

lemma lazy_line_Some:
  "lazy_line t func k = Some e \<Longrightarrow> \<exists>q. k \<le> q \<and> rest_at t func q = Some e"
proof (induction t func k rule: lazy_line.induct)
  case (1 t func k)
  show ?case
  proof (cases "rest_at t func k")
    case (Some e1)
    with "1.prems" show ?thesis by (auto simp: lazy_line.simps [of t func k])
  next
    case None
    with "1.prems" have c: "k < length t \<and> t ! k \<noteq> LF" and n: "lazy_line t func (k + 1) = Some e"
      by (auto simp: lazy_line.simps [of t func k] split: if_splits)
    from "1.IH" [OF None c n] show ?thesis by (metis Suc_eq_plus1 Suc_leD)
  qed
qed

lemma match_at_Some:
  "match_at text func p = Some e \<Longrightarrow> \<exists>q. p \<le> q \<and> rest_at text func q = Some e"
  by (auto simp: match_at_def split: option.splits if_splits dest!: lazy_line_Some) (metis Suc_leD)+

lemma first_match_from_Some:
  "first_match_from t func p0 = Some (p, e) \<Longrightarrow> p0 \<le> p \<and> match_at t func p = Some e"
proof (induction t func p0 rule: first_match_from.induct)
  case (1 t func p0)
  show ?case
  proof (cases "match_at t func p0")
    case None
    with "1.prems" have le: "\<not> length t < p0" and n: "first_match_from t func (p0 + 1) = Some (p, e)"
      by (auto simp: first_match_from.simps [of t func p0] split: if_splits)
    from "1.IH" [OF le None n] show ?thesis by simp
  next
    case (Some e1)
    with "1.prems" show ?thesis
      by (auto simp: first_match_from.simps [of t func p0] split: if_splits)
  qed
qed

lemma line_start_le_end: "line_start text e \<le> e"
  by (auto simp: line_start_def split: option.splits dest: rfind_char_less)

lemma back_scan_le: "c \<le> s \<Longrightarrow> back_scan t s c \<le> s"
proof (induction t s c rule: back_scan.induct)
  case (1 t s c)
  show ?case
  proof (cases "0 < c")
    case False
    then show ?thesis by (simp add: back_scan.simps [of t s 0])
  next
    case True
    let ?pls = "line_start t (c - 1)"
    have lt: "?pls < c" using True line_start_le [of c t] by simp
    let ?prev = "py_strip (take (c - ?pls) (drop ?pls t))"
    show ?thesis
    proof (cases "?prev \<noteq> [] \<and> \<not> (starts_with ''//'' ?prev \<or> starts_with ''/*'' ?prev)
               \<and> \<not> (ends_with '';'' ?prev \<or> ends_with ''}'' ?prev \<or> ends_with ''{'' ?prev)")
      case False
      with True show ?thesis by (auto simp: back_scan.simps [of t s c] Let_def)
    next
      case go: True
      have "back_scan t ?pls ?pls \<le> ?pls"
        using "1.IH" [OF True refl refl] go by simp
      moreover have "back_scan t s c = back_scan t ?pls ?pls"
        using True go by (simp add: back_scan.simps [of t s c] Let_def)
      ultimately show ?thesis using lt "1.prems" by simp
    qed
  qed
qed

lemma signature_start_le: "signature_start text name_idx \<le> name_idx"
proof -
  have "back_scan text (line_start text name_idx) (line_start text name_idx - 1) \<le> line_start text name_idx"
    by (rule back_scan_le) simp
  with line_start_le_end [of "text" name_idx] show ?thesis
    by (simp add: signature_start_def Let_def)
qed

lemma locate_fallback_Inr:
  assumes "locate_fallback text func = Inr (s, b)"
  shows "s \<le> b \<and> b < length text \<and> text ! b = CHR ''{''"
proof -
  from assms obtain name_idx where b: "find_sub ''{'' text name_idx = Some b"
    and s: "s = signature_start text name_idx"
    by (auto simp: locate_fallback_def Let_def split: option.splits if_splits)
  from find_sub_Some [OF b] have "name_idx \<le> b" "b < length text" "text ! b = CHR ''{''"
    by (simp_all add: literal_at_single)
  with signature_start_le [of "text" name_idx] s show ?thesis by simp
qed

lemma locate_Inr:
  assumes "locate text func = Inr (s, b)"
  shows "s \<le> b \<and> b < length text \<and> text ! b = CHR ''{''"
proof (cases "first_match_from text func 0")
  case None
  with assms show ?thesis by (simp add: locate_def locate_fallback_Inr)
next
  case (Some pe)
  obtain p e where pe: "pe = (p, e)" by (cases pe)
  from assms Some pe have s: "s = p" and b: "b = e - 1" by (simp_all add: locate_def)
  from first_match_from_Some Some pe have "match_at text func p = Some e" by blast
  then obtain q where q: "p \<le> q" "rest_at text func q = Some e"
    using match_at_Some by blast
  from rest_at_Some [OF q(2)] q(1) s b show ?thesis by auto
qed

lemma scan_char_Found: "scan_char text i st = Found e \<Longrightarrow> e = i + 1"
  by (auto simp: scan_char_def Let_def split: if_splits)

lemma scan_loop_Inr: "scan_loop t i st = Inr e \<Longrightarrow> i < e \<and> e \<le> length t"
proof (induction t i st rule: scan_loop.induct)
  case (1 t i st)
  from "1.prems" have i: "i < length t"
    by (auto simp: scan_loop.simps [of t i st] split: if_splits)
  show ?case
  proof (cases "scan_char t i st")
    case (Found e1)
    with i "1.prems" have "e = e1" by (simp add: scan_loop.simps [of t i st])
    with scan_char_Found [OF Found] i show ?thesis by simp
  next
    case (Next j st1)
    with i "1.prems" have "scan_loop t j st1 = Inr e" by (simp add: scan_loop.simps [of t i st])
    with "1.IH" [OF i Next] scan_char_advances [OF Next] show ?thesis by simp
  qed
qed

lemma replace_crlf_at:
  "replace_crlf (xs @ CR # LF # ys) = replace_crlf xs @ LF # replace_crlf ys"
proof (induction xs rule: replace_crlf.induct)
  case 1
  then show ?case by simp
next
  case (2 c)
  then show ?case by (simp add: CR_def LF_def)
next
  case (3 c d cs)
  then show ?case by simp
qed

text \<open>
  A successful removal in the code's own terms. Every CRLF of the input is rewritten to
  LF before anything is cut, also far from the function. The returned text is the
  rewritten text without the characters from \<open>cut_start\<close> up to \<open>cut_end\<close>;
  \<open>sig_start\<close> up to \<open>body_end\<close> holds the opening brace, and the cut adds to it at
  most one line feed on either side. Where the pattern finds the definition,
  \<open>sig_start\<close> is the start of the match, which is the line feed before the signature
  line when there is one.
\<close>

lemma removal_cut:
  "replace_crlf (xs @ CR # LF # ys) = replace_crlf xs @ LF # replace_crlf ys
   \<and> (fst (snd (remove_function_from_c_source src_text func)) \<longrightarrow>
       (\<exists>sig_start brace_idx body_end cut_start cut_end.
          locate (replace_crlf src_text) func = Inr (sig_start, brace_idx)
          \<and> scan_loop (replace_crlf src_text) brace_idx initial_state = Inr body_end
          \<and> sig_start \<le> brace_idx \<and> brace_idx < body_end
          \<and> body_end \<le> length (replace_crlf src_text)
          \<and> (cut_start = sig_start
               \<or> (cut_start + 1 = sig_start \<and> replace_crlf src_text ! cut_start = LF))
          \<and> (cut_end = body_end
               \<or> (cut_end = body_end + 1 \<and> cut_end \<le> length (replace_crlf src_text)
                   \<and> replace_crlf src_text ! body_end = LF))
          \<and> fst (remove_function_from_c_source src_text func)
                = take cut_start (replace_crlf src_text) @ drop cut_end (replace_crlf src_text)))"
proof (intro conjI impI)
  show "replace_crlf (xs @ CR # LF # ys) = replace_crlf xs @ LF # replace_crlf ys"
    by (rule replace_crlf_at)
next
  let ?text = "replace_crlf src_text"
  assume removed: "fst (snd (remove_function_from_c_source src_text func))"
  then obtain sig_start brace_idx where loc: "locate ?text func = Inr (sig_start, brace_idx)"
    by (cases "locate ?text func") (auto simp: remove_function_from_c_source_def)
  with removed obtain body_end where scan: "scan_loop ?text brace_idx initial_state = Inr body_end"
    by (cases "scan_loop ?text brace_idx initial_state") (auto simp: remove_function_from_c_source_def)
  let ?cut_start = "if 0 < sig_start \<and> ?text ! (sig_start - 1) = LF then sig_start - 1 else sig_start"
  let ?cut_end = "if body_end < length ?text \<and> ?text ! body_end = LF then body_end + 1 else body_end"
  have new: "fst (remove_function_from_c_source src_text func) = take ?cut_start ?text @ drop ?cut_end ?text"
    using loc scan by (simp add: remove_function_from_c_source_def Let_def)
  from locate_Inr [OF loc] have s: "sig_start \<le> brace_idx" by simp
  from scan_loop_Inr [OF scan] have b: "brace_idx < body_end" "body_end \<le> length ?text" by simp_all
  have cs: "?cut_start = sig_start \<or> (?cut_start + 1 = sig_start \<and> ?text ! ?cut_start = LF)"
    by auto
  have ce: "?cut_end = body_end \<or> (?cut_end = body_end + 1 \<and> ?cut_end \<le> length ?text
                   \<and> ?text ! body_end = LF)"
    by auto
  show "\<exists>sig_start brace_idx body_end cut_start cut_end.
          locate ?text func = Inr (sig_start, brace_idx)
          \<and> scan_loop ?text brace_idx initial_state = Inr body_end
          \<and> sig_start \<le> brace_idx \<and> brace_idx < body_end
          \<and> body_end \<le> length ?text
          \<and> (cut_start = sig_start \<or> (cut_start + 1 = sig_start \<and> ?text ! cut_start = LF))
          \<and> (cut_end = body_end
               \<or> (cut_end = body_end + 1 \<and> cut_end \<le> length ?text \<and> ?text ! body_end = LF))
          \<and> fst (remove_function_from_c_source src_text func)
                = take cut_start ?text @ drop cut_end ?text"
    using loc scan s b cs ce new by blast
qed

lemma brace_src_removed:
  "remove_function_from_c_source brace_src ''f''
     = (''int a;int b;'' @ [LF], True, removed_msg ''f'' 33)"
  by code_simp

text \<open>
  Claim C10 on the code. In \<open>blank_src\<close> the definition of \<open>f\<close> has 15 characters and
  stands after an empty line. The pattern's match starts at the line feed of the empty
  line (index 7), the clean-up takes the line feed before it (index 6) as well, and the
  line feed after the closing brace goes too: 18 characters are cut, two line feeds
  before the definition and one after it, and \<open>int a;\<close> and \<open>int b;\<close> end up on one
  line.
\<close>

theorem blank_line_two_feeds:
  "blank_src = ''int a;'' @ [LF, LF] @ ''void f(void) {}'' @ [LF] @ ''int b;''
   \<and> length ''void f(void) {}'' = 15
   \<and> first_match_from blank_src ''f'' 0 = Some (7, 22)
   \<and> locate blank_src ''f'' = Inr (7, 21)
   \<and> scan_loop blank_src 21 initial_state = Inr 23
   \<and> remove_function_from_c_source blank_src ''f'' = (''int a;int b;'', True, removed_msg ''f'' 18)"
  by code_simp

lemma unbalanced_src_result:
  "remove_function_from_c_source unbalanced_src ''f'' = (unbalanced_src, False, unbalanced_msg ''f'' 1)"
  by code_simp

lemma prototype_src_result:
  "remove_function_from_c_source prototype_src ''bar'' = (prototype_src, False, prototype_msg ''bar'')"
  by code_simp

lemma not_found_result:
  "remove_function_from_c_source unbalanced_src ''g'' = (unbalanced_src, False, not_found_msg ''g'')"
  by code_simp

lemma no_brace_result:
  "remove_function_from_c_source (''int g(int);'' @ [CR, LF]) ''g''
     = (''int g(int);'' @ [CR, LF], False, no_brace_msg ''g'')"
  by code_simp

theorem failure_returns_input_witness:
  "fst (remove_function_from_c_source unbalanced_src ''f'') = unbalanced_src
   \<and> replace_crlf unbalanced_src \<noteq> unbalanced_src
   \<and> snd (snd (remove_function_from_c_source unbalanced_src ''f'')) = unbalanced_msg ''f'' 1"
proof -
  have "\<not> fst (snd (remove_function_from_c_source unbalanced_src ''f''))"
    by (simp add: unbalanced_src_result)
  with failure_returns_input [of unbalanced_src "''f''"]
  have "fst (remove_function_from_c_source unbalanced_src ''f'') = unbalanced_src" by blast
  moreover have "replace_crlf unbalanced_src \<noteq> unbalanced_src" by code_simp
  ultimately show ?thesis by (simp add: unbalanced_src_result)
qed

lemma scan_loop_step:
  "i < length t \<Longrightarrow> scan_char t i st = Next j st1 \<Longrightarrow> scan_loop t i st = scan_loop t j st1"
  by (simp add: scan_loop.simps [of t i st])

lemma scan_char_escaped:
  "escape_next st \<Longrightarrow> scan_char t i st = Next (i + 1) (st\<lparr>escape_next := False\<rparr>)"
  by (simp add: scan_char_def Let_def)

lemma scan_char_backslash:
  "\<not> escape_next st \<Longrightarrow> in_string st \<or> in_char st \<Longrightarrow> t ! i = BACKSLASH \<Longrightarrow>
   scan_char t i st = Next (i + 1) (st\<lparr>escape_next := True\<rparr>)"
  by (elim disjE) (simp_all add: scan_char_def Let_def)

lemma scan_char_not_normal:
  "escape_next st \<or> in_string st \<or> in_char st \<or> in_sl_comment st \<or> in_ml_comment st \<Longrightarrow>
   \<exists>j st1. scan_char t i st = Next j st1 \<and> depth st1 = depth st"
  by (elim disjE) (simp_all add: scan_char_def Let_def)

lemma scan_char_brace_in_string:
  "in_string st \<Longrightarrow> \<not> escape_next st \<Longrightarrow> t ! i = CHR ''{'' \<or> t ! i = CHR ''}'' \<Longrightarrow>
   scan_char t i st = Next (i + 1) st"
  by (elim disjE) (simp_all add: scan_char_def Let_def BACKSLASH_def DQUOTE_def)

lemma scan_loop_backslash:
  assumes "\<not> escape_next st" "in_string st \<or> in_char st" "t ! i = BACKSLASH" "i + 1 < length t"
  shows "scan_loop t i st = scan_loop t (i + 2) st"
proof -
  have "scan_loop t i st = scan_loop t (i + 1) (st\<lparr>escape_next := True\<rparr>)"
    using assms by (intro scan_loop_step scan_char_backslash) simp_all
  also have "\<dots> = scan_loop t (i + 1 + 1) (st\<lparr>escape_next := True\<rparr>\<lparr>escape_next := False\<rparr>)"
    using assms(4) by (intro scan_loop_step scan_char_escaped) simp_all
  also have "st\<lparr>escape_next := True\<rparr>\<lparr>escape_next := False\<rparr> = st"
    using assms(1) by simp
  finally show ?thesis by simp
qed

text \<open>
  One turn of the scan by mode. Outside normal mode (inside a string or character
  literal, inside a comment, or right after a backslash) it neither returns nor changes
  the depth; in string mode a brace leaves the whole state as it is; after a backslash
  in string or character mode the scan goes on two characters later in the same state.
\<close>

lemma scan_outside_normal_mode:
  "(escape_next st \<or> in_string st \<or> in_char st \<or> in_sl_comment st \<or> in_ml_comment st \<longrightarrow>
      (\<exists>j st1. scan_char text i st = Next j st1 \<and> depth st1 = depth st))
   \<and> (in_string st \<and> \<not> escape_next st \<and> (text ! i = CHR ''{'' \<or> text ! i = CHR ''}'') \<longrightarrow>
      scan_char text i st = Next (i + 1) st)
   \<and> (\<not> escape_next st \<and> (in_string st \<or> in_char st) \<and> text ! i = BACKSLASH
        \<and> i + 1 < length text \<longrightarrow>
      scan_loop text i st = scan_loop text (i + 2) st)"
  using scan_char_not_normal [of st "text" i] scan_char_brace_in_string [of st "text" i]
    scan_loop_backslash [of st "text" i]
  by blast

lemma literal_src_removed:
  "remove_function_from_c_source literal_src ''f'' = ([], True, removed_msg ''f'' 31)"
  by code_simp

lemma escape_src_removed:
  "remove_function_from_c_source escape_src ''f'' = ([], True, removed_msg ''f'' 33)"
  by code_simp

text \<open>
  Claim C5 on the code. In \<open>quote_src\<close> the apostrophe of \<open>1'000\<close> (index 24) puts the
  scan in character mode, so the double quote at index 40 does not open string mode;
  the apostrophe of \<open>it's\<close> (index 43) ends character mode inside the string literal,
  and the closing brace at index 46, between the double quotes at 40 and 47, is read in
  normal mode and brings the depth to 0. The scan returns there with \<open>body_end = 47\<close>,
  and the cut ends inside the string literal.
\<close>

theorem brace_in_literal_ends_scan:
  "quote_src ! 24 = QUOTE \<and> quote_src ! 40 = DQUOTE \<and> quote_src ! 43 = QUOTE
   \<and> quote_src ! 46 = CHR ''}'' \<and> quote_src ! 47 = DQUOTE
   \<and> locate quote_src ''f'' = Inr (0, 13)
   \<and> scan_loop quote_src 13 initial_state = Inr 47
   \<and> remove_function_from_c_source quote_src ''f''
       = ([DQUOTE] @ ''; g(); }'' @ [LF] @ ''int z;'', True, removed_msg ''f'' 47)"
  by code_simp

lemma bar_head_match:
  "first_match_from (bar_head @ tail) ''bar'' 0 = Some (16, 34)"
  by (simp add: bar_head_def first_match_from.simps match_at_def lazy_line.simps rest_at_def Let_def
      word_boundary_def is_word_at_def literal_at_def skip_space_def find_sub.simps brace_after.simps
      is_word_def is_digit_def is_ident_start_def in_range_def is_space_def LF_def nth_append)

lemma replace_crlf_id: "CR \<notin> set xs \<Longrightarrow> replace_crlf xs = xs"
  by (induction xs rule: replace_crlf.induct) auto

lemma scan_char_plain:
  "normal_state st \<Longrightarrow> plain_char (t ! i) \<Longrightarrow> scan_char t i st = Next (i + 1) st"
  by (simp add: scan_char_def Let_def normal_state_def plain_char_def)

lemma scan_loop_found:
  "i < length t \<Longrightarrow> scan_char t i st = Found e \<Longrightarrow> scan_loop t i st = Inr e"
  by (simp add: scan_loop.simps [of t i st])

lemma scan_loop_plain_run:
  "normal_state st \<Longrightarrow> \<forall>c \<in> set body. plain_char c \<Longrightarrow>
   scan_loop (pre @ body @ suf) (length pre) st
     = scan_loop (pre @ body @ suf) (length pre + length body) st"
proof (induction body arbitrary: pre)
  case Nil
  then show ?case by simp
next
  case (Cons c body)
  let ?t = "pre @ (c # body) @ suf"
  have i: "length pre < length ?t" by simp
  have c: "?t ! length pre = c" by (simp add: nth_append)
  from Cons.prems have "scan_char ?t (length pre) st = Next (length pre + 1) st"
    by (intro scan_char_plain) (simp_all add: c)
  with i have "scan_loop ?t (length pre) st = scan_loop ?t (length pre + 1) st"
    by (rule scan_loop_step)
  also have "\<dots> = scan_loop ((pre @ [c]) @ body @ suf) (length (pre @ [c])) st" by simp
  also have "\<dots> = scan_loop ((pre @ [c]) @ body @ suf) (length (pre @ [c]) + length body) st"
    using Cons.prems by (intro Cons.IH) simp_all
  finally show ?case by simp
qed

lemma scan_bar_body:
  assumes "\<forall>c \<in> set body. plain_char c"
  shows "scan_loop (bar_head @ body @ ''}'' @ rest) 33 initial_state = Inr (35 + length body)"
proof -
  let ?t = "bar_head @ body @ ''}'' @ rest"
  let ?st = "initial_state\<lparr>depth := 1\<rparr>"
  have len: "length bar_head = 34" by (simp add: bar_head_def)
  have "scan_char ?t 33 initial_state = Next 34 ?st"
    by (simp add: scan_char_def Let_def initial_state_def bar_head_def nth_append
        BACKSLASH_def DQUOTE_def QUOTE_def LF_def)
  moreover have "33 < length ?t" by (simp add: len)
  ultimately have "scan_loop ?t 33 initial_state = scan_loop ?t 34 ?st"
    by (rule scan_loop_step [rotated])
  also have "\<dots> = scan_loop ?t (length bar_head + length body) ?st"
    using scan_loop_plain_run [of ?st body bar_head "''}'' @ rest"] assms
    by (simp add: len normal_state_def initial_state_def)
  also have "\<dots> = Inr (35 + length body)"
  proof -
    have ch: "?t ! (length bar_head + length body) = CHR ''}''"
      by (simp add: nth_append)
    have "scan_char ?t (length bar_head + length body) ?st = Found (length bar_head + length body + 1)"
      by (simp add: scan_char_def Let_def ch initial_state_def QUOTE_def DQUOTE_def)
    moreover have "length bar_head + length body < length ?t" by simp
    ultimately have "scan_loop ?t (length bar_head + length body) ?st
        = Inr (length bar_head + length body + 1)"
      by (rule scan_loop_found [rotated])
    then show ?thesis by (simp add: len)
  qed
  finally show ?thesis .
qed

text \<open>
  Where the removal does skip a prototype: for the prototype of \<open>bar\<close> followed at once
  by its definition, with any body of plain characters and any text after the closing
  brace, the prototype line stays and the definition is cut. In general the match that
  the pattern selects holds the name, a closing parenthesis after it, and no semicolon
  between that parenthesis and the opening brace at which the match ends.
\<close>

lemma prototype_then_definition:
  "((\<forall>c \<in> set body. plain_char c) \<and> CR \<notin> set rest \<longrightarrow>
      remove_function_from_c_source (bar_head @ body @ ''}'' @ rest) ''bar''
        = (''void bar(int x);'' @ (if rest \<noteq> [] \<and> hd rest = LF then tl rest else rest),
           True,
           removed_msg ''bar''
             (19 + int (length body) + (if rest \<noteq> [] \<and> hd rest = LF then 1 else 0))))
   \<and> (first_match_from text func 0 = Some (match_start, match_end) \<longrightarrow>
        (\<exists>q k. match_start \<le> q \<and> literal_at func text q \<and> q \<le> k \<and> k < match_end - 1
           \<and> text ! k = CHR '')''
           \<and> (\<forall>m. k < m \<and> m < match_end - 1 \<longrightarrow> text ! m \<noteq> CHR '';'')
           \<and> text ! (match_end - 1) = CHR ''{''))"
proof (intro conjI impI)
  let ?t = "bar_head @ body @ ''}'' @ rest"
  assume "(\<forall>c \<in> set body. plain_char c) \<and> CR \<notin> set rest"
  then have body: "\<forall>c \<in> set body. plain_char c" and rest: "CR \<notin> set rest" by simp_all
  have "CR \<notin> set ?t" using body rest by (auto simp: bar_head_def plain_char_def CR_def LF_def)
  then have norm: "replace_crlf ?t = ?t" by (rule replace_crlf_id)
  have loc: "locate ?t ''bar'' = Inr (16, 33)"
    using bar_head_match [of "body @ ''}'' @ rest"] by (simp add: locate_def)
  have scan: "scan_loop ?t 33 initial_state = Inr (35 + length body)"
    using body by (rule scan_bar_body)
  have len: "length bar_head = 34" by (simp add: bar_head_def)
  have c15: "?t ! 15 = CHR '';''" by (simp add: bar_head_def nth_append)
  have tk: "take 16 ?t = ''void bar(int x);''" by (simp add: bar_head_def)
  have dr: "drop (35 + length body) ?t = rest" by (simp add: len)
  have nth: "?t ! (35 + length body) = rest ! 0" by (simp add: nth_append len)
  have dr1: "drop (Suc (35 + length body)) ?t = tl rest"
    using dr by (metis drop_Suc tl_drop)
  show "remove_function_from_c_source ?t ''bar''
        = (''void bar(int x);'' @ (if rest \<noteq> [] \<and> hd rest = LF then tl rest else rest),
           True,
           removed_msg ''bar''
             (19 + int (length body) + (if rest \<noteq> [] \<and> hd rest = LF then 1 else 0)))"
    unfolding remove_function_from_c_source_def norm
    using loc scan c15 tk dr dr1 nth
    by (cases rest) (simp_all add: Let_def LF_def len)
next
  assume "first_match_from text func 0 = Some (match_start, match_end)"
  with first_match_from_Some have "match_at text func match_start = Some match_end" by blast
  then obtain q where q: "match_start \<le> q" "rest_at text func q = Some match_end"
    using match_at_Some by blast
  from rest_at_Some [OF q(2)] q(1)
  show "\<exists>q k. match_start \<le> q \<and> literal_at func text q \<and> q \<le> k \<and> k < match_end - 1
           \<and> text ! k = CHR '')''
           \<and> (\<forall>m. k < m \<and> m < match_end - 1 \<longrightarrow> text ! m \<noteq> CHR '';'')
           \<and> text ! (match_end - 1) = CHR ''{''"
    by blast
qed

lemma bar_src_removed:
  "first_match_from bar_src ''bar'' 0 = Some (16, 34)
   \<and> remove_function_from_c_source bar_src ''bar'' = (''void bar(int x);'', True, removed_msg ''bar'' 28)"
  by code_simp

text \<open>
  Claim C6 on the code. In \<open>caller_src\<close> a function that calls \<open>bar\<close> stands between
  the prototype and the definition. The first match of the pattern is the call
  \<open>bar(1)\<close> with the brace of the \<open>if\<close> after it: the \<open>if\<close> block of \<open>g\<close> is cut,
  the definition of \<open>bar\<close> stays, and the removal reports success. In
  \<open>only_prototype_src\<close> the pattern matches nowhere; the fallback sees the semicolon of
  the prototype, takes the next \<open>bar(\<close>, which is the call inside \<open>other\<close>, with no
  further test, and cuts \<open>other\<close> and \<open>third\<close>.
\<close>

theorem call_cut_for_definition:
  "first_match_from caller_src ''bar'' 0 = Some (31, 47)
   \<and> remove_function_from_c_source caller_src ''bar''
       = (''void bar(int x);'' @ [LF] @ ''void g(void) {}'' @ [LF]
            @ ''void bar(int x) { return; }'' @ [LF],
          True, removed_msg ''bar'' 33)
   \<and> first_match_from only_prototype_src ''bar'' 0 = None
   \<and> locate only_prototype_src ''bar'' = Inr (17, 68)
   \<and> remove_function_from_c_source only_prototype_src ''bar''
       = (''void bar(int x);'', True, removed_msg ''bar'' 66)"
  by code_simp

end
